theory Spec2Isabelle
  imports Complex_Main "HOL-Library.Char_ord" "HOL-Library.List_Lexorder" "HOL-Library.AList"
begin

section \<open>The proxy pool: \<^verbatim>\<open>ProxyRotator\<close>\<close>

text \<open>
  \<^verbatim>\<open>
  class ProxyRotator:
      def __init__(self, proxies):
          self.proxies = proxies; self.n = len(proxies); self.idx = 0
      async def next(self):
          async with self.lock:
              if self.n == 0: return None
              p = self.proxies[self.idx]
              self.idx = (self.idx + 1) % self.n
              return p
  \<close>
  The lock serialises the body of \<^verbatim>\<open>next\<close>, so one call is one atomic state transition:
  the model passes the rotator in and returns it updated.
\<close>

record rotator =
  proxies :: "string list"
  n :: nat
  idx :: nat

definition ProxyRotator :: "string list \<Rightarrow> rotator" where
  "ProxyRotator ps = \<lparr>proxies = ps, n = length ps, idx = 0\<rparr>"

text \<open>
  \<open>next_proxy\<close> is the method \<^verbatim>\<open>next\<close>. The read \<^verbatim>\<open>self.proxies[self.idx]\<close> is in range
  in every state reachable from the constructor (lemma \<open>rot_inv_next\<close> below).
\<close>

definition next_proxy :: "rotator \<Rightarrow> string option \<times> rotator" where
  "next_proxy r =
     (if n r = 0 then (None, r)
      else (Some (proxies r ! idx r), r\<lparr>idx := (idx r + 1) mod n r\<rparr>))"

text \<open>\<open>draws k r\<close>: the values returned by \<open>k\<close> consecutive calls of \<^verbatim>\<open>next\<close>, and the rotator after them.\<close>

fun draws :: "nat \<Rightarrow> rotator \<Rightarrow> string option list \<times> rotator" where
  "draws 0 r = ([], r)"
| "draws (Suc k) r =
     (case next_proxy r of (p, r') \<Rightarrow> (case draws k r' of (ps, r'') \<Rightarrow> (p # ps, r'')))"

definition rot_inv :: "rotator \<Rightarrow> bool" where
  "rot_inv r = (n r = length (proxies r) \<and> (n r = 0 \<and> idx r = 0 \<or> idx r < n r))"

section \<open>Values exchanged with the remote endpoint\<close>

text \<open>
  A record of the catalogue is a JSON object. The program reads one field of it,
  \<^verbatim>\<open>productId\<close>, and copies the object as a whole; the other fields are carried as an
  opaque \<open>payload\<close>. A \<^verbatim>\<open>productId\<close> is a JSON scalar (null, boolean, integer or string) or
  is absent; identifiers that are floats or containers are outside this model.
\<close>

datatype jval = JNull | JBool bool | JInt int | JStr string

record product =
  productId :: "jval option"
  payload :: string

text \<open>The object under \<^verbatim>\<open>productSearch\<close>; \<open>None\<close> is a key that is absent or null.\<close>

record search_node =
  recordsFiltered :: "int option"
  products :: "product list option"

text \<open>
  What \<^verbatim>\<open>data["data"]\<close> holds: null, or an object whose \<^verbatim>\<open>productSearch\<close> member is
  absent or null (\<open>None\<close>) or an object.
\<close>

datatype gql_data = DataNull | DataObj "search_node option"

text \<open>What makes one attempt fail: every exception the \<^verbatim>\<open>try\<close> block of
  \<^verbatim>\<open>graphql_post_json\<close> can raise, all caught by \<^verbatim>\<open>except Exception\<close>.\<close>

datatype exc = TransportError | HTTPStatusError | JSONDecodeError | GraphQLErrors | DataKeyError

text \<open>What a run can raise: \<^verbatim>\<open>RuntimeError("No valid proxies loaded from file")\<close>,
  \<^verbatim>\<open>RuntimeError(f"Request failed after {max_retries} attempts: {last_exc}")\<close>, and the
  \<^verbatim>\<open>AttributeError\<close> of \<^verbatim>\<open>None.get\<close> when the response's data is null.\<close>

datatype error = NoValidProxies | RequestFailed int "exc option" | AttributeError

text \<open>
  The remote endpoint is an oracle: the outcome of the POST issued through a proxy, for a
  range \<open>(from, to)\<close>, at attempt number \<open>a\<close> of that range.

  The random source is an oracle too. \<^verbatim>\<open>random.random()\<close> returns a float in the half-open
  interval \<open>[0.0, 1.0)\<close>: \<open>unit_draw\<close> is the type of its values (as reals), and a jitter source
  gives the value it returns for the draw made after failed attempt \<open>a\<close> of a range.
\<close>

typedef unit_draw = "{x :: real. 0 \<le> x \<and> x < 1}"
  by (rule exI [of _ 0]) simp

setup_lifting type_definition_unit_draw

type_synonym network = "string option \<Rightarrow> int \<times> int \<Rightarrow> int \<Rightarrow> exc + gql_data"
type_synonym jitter = "int \<times> int \<Rightarrow> int \<Rightarrow> unit_draw"

datatype event = Post "string option" "int \<times> int" | Sleep real

fun posts :: "event list \<Rightarrow> string option list" where
  "posts [] = []"
| "posts (Post p v # es) = p # posts es"
| "posts (Sleep s # es) = posts es"

fun sleeps :: "event list \<Rightarrow> real list" where
  "sleeps [] = []"
| "sleeps (Post p v # es) = sleeps es"
| "sleeps (Sleep s # es) = s # sleeps es"

section \<open>One request with retries: \<^verbatim>\<open>graphql_post_json\<close>\<close>

text \<open>
  \<^verbatim>\<open>random.uniform(a, b)\<close> of Python's standard library is
  \<^verbatim>\<open>a + (b - a) * self.random()\<close>; \<open>u\<close> is the value \<^verbatim>\<open>random()\<close> returns for this draw.
\<close>

definition uniform :: "real \<Rightarrow> real \<Rightarrow> unit_draw \<Rightarrow> real" where
  "uniform a b u = a + (b - a) * Rep_unit_draw u"

text \<open>\<^verbatim>\<open>sleep_s = min(2.0 * attempt, 8.0) + random.uniform(0.0, 0.5)\<close>, durations as reals.\<close>

definition sleep_s :: "int \<Rightarrow> unit_draw \<Rightarrow> real" where
  "sleep_s attempt u = min (2 * real_of_int attempt) 8 + uniform 0 (1/2) u"

text \<open>
  \<^verbatim>\<open>
  for attempt in range(1, max_retries + 1):
      try:
          ... client.post(..., proxy=proxy_url) ...; return data["data"]
      except Exception as e:
          last_exc = e
          sleep_s = min(2.0 * attempt, 8.0) + random.uniform(0.0, 0.5)
          await asyncio.sleep(sleep_s)
  raise RuntimeError(f"Request failed after {max_retries} attempts: {last_exc}")
  \<close>
  \<open>retry_loop\<close> is the loop over the attempt numbers still to run; it carries \<^verbatim>\<open>last_exc\<close>
  and the trace of network calls and sleeps made so far.
\<close>

fun retry_loop ::
  "network \<Rightarrow> (int \<Rightarrow> unit_draw) \<Rightarrow> int \<times> int \<Rightarrow> string option \<Rightarrow> int list \<Rightarrow> exc option \<Rightarrow> event list
   \<Rightarrow> (exc option + gql_data) \<times> event list" where
  "retry_loop net jit variables proxy_url [] last_exc tr = (Inl last_exc, tr)"
| "retry_loop net jit variables proxy_url (attempt # rest) last_exc tr =
     (case net proxy_url variables attempt of
        Inr d \<Rightarrow> (Inr d, tr @ [Post proxy_url variables])
      | Inl e \<Rightarrow>
          retry_loop net jit variables proxy_url rest (Some e)
            (tr @ [Post proxy_url variables, Sleep (sleep_s attempt (jit attempt))]))"

definition graphql_post_json ::
  "network \<Rightarrow> (int \<Rightarrow> unit_draw) \<Rightarrow> int \<times> int \<Rightarrow> string option \<Rightarrow> int \<Rightarrow> (error + gql_data) \<times> event list" where
  "graphql_post_json net jit variables proxy_url max_retries =
     (case retry_loop net jit variables proxy_url [1..max_retries] None [] of
        (Inl last_exc, tr) \<Rightarrow> (Inl (RequestFailed max_retries last_exc), tr)
      | (Inr d, tr) \<Rightarrow> (Inr d, tr))"

section \<open>One range: \<^verbatim>\<open>fetch_page\<close>\<close>

text \<open>
  \<^verbatim>\<open>
  proxy = await rotator.next()
  variables = {..., "from": from_i, "to": to_i, ...}
  data = await graphql_post_json(PRODUCT_SEARCH_QUERY, variables, proxy)
  return (from_i, data)
  \<close>
  The result is the outcome, the rotator after the call and the trace of the request.
\<close>

definition fetch_page ::
  "rotator \<Rightarrow> network \<Rightarrow> jitter \<Rightarrow> int \<times> int \<Rightarrow> (error + int \<times> gql_data) \<times> rotator \<times> event list" where
  "fetch_page rot net jit rng =
     (case next_proxy rot of
        (proxy, rot') \<Rightarrow>
          (case graphql_post_json net (jit rng) rng proxy 4 of
             (Inl e, tr) \<Rightarrow> (Inl e, rot', tr)
           | (Inr d, tr) \<Rightarrow> (Inr (fst rng, d), rot', tr)))"

section \<open>Discovery and planning\<close>

text \<open>
  \<^verbatim>\<open>
  search_node = first_data.get("productSearch", {}) or {}
  total = search_node.get("recordsFiltered", 0) or 0
  products_first = search_node.get("products", []) or []
  if total == 0 and products_first:
      total = len(products_first)
  \<close>
\<close>

definition node_total :: "search_node option \<Rightarrow> int" where
  "node_total sn = (case sn of None \<Rightarrow> 0 | Some nd \<Rightarrow> (case recordsFiltered nd of None \<Rightarrow> 0 | Some t \<Rightarrow> t))"

definition node_products :: "search_node option \<Rightarrow> product list" where
  "node_products sn = (case sn of None \<Rightarrow> [] | Some nd \<Rightarrow> (case products nd of None \<Rightarrow> [] | Some ps \<Rightarrow> ps))"

definition discover :: "search_node option \<Rightarrow> int \<times> product list" where
  "discover sn =
     (let tot = node_total sn; products_first = node_products sn
      in if tot = 0 \<and> products_first \<noteq> [] then (int (length products_first), products_first)
         else (tot, products_first))"

text \<open>
  \<^verbatim>\<open>
  while current <= last_index:
      f = current
      t = min(current + window - 1, last_index)
      pages.append((f, t))
      current = t + 1
  \<close>
  The loop does not end for every window (a window of zero never advances \<^verbatim>\<open>current\<close>), so
  not returning is the value \<open>None\<close>.
\<close>

partial_function (option) plan_known :: "int \<Rightarrow> int \<Rightarrow> int \<Rightarrow> (int \<times> int) list \<Rightarrow> (int \<times> int) list option" where
  "plan_known window last_index current pages =
     (if current \<le> last_index
      then plan_known window last_index (min (current + window - 1) last_index + 1)
             (pages @ [(current, min (current + window - 1) last_index)])
      else Some pages)"

declare plan_known.simps [code]

text \<open>
  \<^verbatim>\<open>
  for _ in range(max_safety_pages):
      f = current
      t = current + window - 1
      pages.append((f, t))
      current = t + 1
  \<close>
\<close>

fun plan_rolling :: "int \<Rightarrow> nat \<Rightarrow> int \<Rightarrow> (int \<times> int) list \<Rightarrow> (int \<times> int) list" where
  "plan_rolling window 0 current pages = pages"
| "plan_rolling window (Suc k) current pages =
     plan_rolling window k (current + window - 1 + 1) (pages @ [(current, current + window - 1)])"

definition max_safety_pages :: nat where
  "max_safety_pages = 2000"

text \<open>\<^verbatim>\<open>if total and total > window: ... else: ...\<close>, both plans starting at \<^verbatim>\<open>current = window\<close>
  (\<open>tot\<close> is the source's \<^verbatim>\<open>total\<close>, a name HOL has taken).\<close>

definition plan_pages :: "int \<Rightarrow> int \<Rightarrow> (int \<times> int) list option" where
  "plan_pages tot window =
     (if tot \<noteq> 0 \<and> tot > window then plan_known window (tot - 1) window []
      else Some (plan_rolling window max_safety_pages window []))"

section \<open>Artifact files\<close>

text \<open>
  \<^verbatim>\<open>f"products_{f:08d}_{t:08d}.json"\<close>: the format \<^verbatim>\<open>08d\<close> pads with zeros to eight
  characters, the sign included, and never truncates.
\<close>

definition digit :: "nat \<Rightarrow> char" where
  "digit d = ''0123456789'' ! d"

fun decimal :: "nat \<Rightarrow> string" where
  "decimal k = (if k < 10 then [digit k] else decimal (k div 10) @ [digit (k mod 10)])"

declare decimal.simps [simp del]

definition zfill :: "nat \<Rightarrow> string \<Rightarrow> string" where
  "zfill w s = replicate (w - length s) (CHR ''0'') @ s"

definition fmt08d :: "int \<Rightarrow> string" where
  "fmt08d i = (if i < 0 then CHR ''-'' # zfill 7 (decimal (nat (- i))) else zfill 8 (decimal (nat i)))"

definition page_name :: "int \<Rightarrow> int \<Rightarrow> string" where
  "page_name f t = ''products_'' @ fmt08d f @ ''_'' @ fmt08d t @ ''.json''"

text \<open>
  The run directory, as far as \<^verbatim>\<open>glob("products_*.json")\<close> sees it: the page artifacts,
  name and content. (\<^verbatim>\<open>meta.json\<close>, \<^verbatim>\<open>products_all.jsonl\<close> and \<^verbatim>\<open>manifest.json\<close> do not match the
  pattern.) The directory is new for every run, its name carrying the timestamp. Writing a
  file replaces the content under its name or adds the name (\<open>AList.update\<close>). A file read
  back is the JSON array that was written, or does not parse.
\<close>

datatype file_content = Malformed | JsonArray "product list"

type_synonym directory = "(string \<times> file_content) list"

definition write_text :: "string \<Rightarrow> file_content \<Rightarrow> directory \<Rightarrow> directory" where
  "write_text name c dir = AList.update name c dir"

text \<open>\<^verbatim>\<open>sorted(base_out.glob("products_*.json"))\<close>: the paths of one directory, compared by
  name, character by character.\<close>

definition sorted_glob :: "directory \<Rightarrow> directory" where
  "sorted_glob dir = sort_key fst dir"

section \<open>Workers and their completion\<close>

text \<open>
  \<^verbatim>\<open>
  async def worker(f, t):
      async with sem:
          frm, data = await fetch_page(rotator, selected_facets, f, t, order_by)
          node = data.get("productSearch", {}) or {}
          prods = node.get("products", []) or []
          outp = base_out / f"products_{f:08d}_{t:08d}.json"
          outp.write_text(json.dumps(prods, ...))
          return len(prods)
  \<close>
  The tasks are created in the order of the plan and the semaphore wakes its waiters in that
  order; a task that holds the semaphore reaches \<^verbatim>\<open>rotator.next()\<close> without yielding, so the
  proxies are drawn in the order of the plan (\<open>start_workers\<close>). The tasks end in any order:
  \<open>rank\<close> gives each range its place in the order of completion, and \<open>as_completed\<close> lists
  the tasks in that order. A task writes its file when it ends (\<open>worker_finish\<close>).
\<close>

fun start_workers ::
  "rotator \<Rightarrow> network \<Rightarrow> jitter \<Rightarrow> (int \<times> int) list \<Rightarrow> ((int \<times> int) \<times> (error + int \<times> gql_data)) list" where
  "start_workers rot net jit [] = []"
| "start_workers rot net jit (pg # pgs) =
     (case fetch_page rot net jit pg of
        (res, rot', tr) \<Rightarrow> (pg, res) # start_workers rot' net jit pgs)"

definition as_completed ::
  "(int \<times> int \<Rightarrow> nat) \<Rightarrow> ((int \<times> int) \<times> 'a) list \<Rightarrow> ((int \<times> int) \<times> 'a) list" where
  "as_completed rank tasks = sort_key (\<lambda>task. rank (fst task)) tasks"

definition worker_finish ::
  "int \<times> int \<Rightarrow> (error + int \<times> gql_data) \<Rightarrow> directory \<Rightarrow> error + nat \<times> directory" where
  "worker_finish pg res dir =
     (case res of
        Inl e \<Rightarrow> Inl e
      | Inr (frm, DataNull) \<Rightarrow> Inl AttributeError
      | Inr (frm, DataObj node) \<Rightarrow>
          (let prods = node_products node
           in Inr (length prods, write_text (page_name (fst pg) (snd pg)) (JsonArray prods) dir)))"

text \<open>
  \<^verbatim>\<open>
  total_downloaded = len(products_first)
  for coro in asyncio.as_completed(tasks):
      got = await coro
      total_downloaded += got
  \<close>
  Awaiting a task that raised raises in the run: the loop stops at the first such task.
\<close>

fun gather ::
  "((int \<times> int) \<times> (error + int \<times> gql_data)) list \<Rightarrow> nat \<times> directory \<Rightarrow> error + nat \<times> directory" where
  "gather [] st = Inr st"
| "gather ((pg, res) # rest) (total_downloaded, dir) =
     (case worker_finish pg res dir of
        Inl e \<Rightarrow> Inl e
      | Inr (got, dir') \<Rightarrow> gather rest (total_downloaded + got, dir'))"

text \<open>What awaiting a task raises, if anything: the terminal failure of its fetch, or the
  \<^verbatim>\<open>AttributeError\<close> of \<^verbatim>\<open>data.get\<close> on a null answer.\<close>

definition task_error :: "(error + int \<times> gql_data) \<Rightarrow> error option" where
  "task_error res =
     (case res of Inl e \<Rightarrow> Some e | Inr (frm, DataNull) \<Rightarrow> Some AttributeError | Inr (frm, DataObj node) \<Rightarrow> None)"

section \<open>Aggregation\<close>

text \<open>
  \<^verbatim>\<open>
  for p in arr:
      pid = p.get("productId")
      if pid and pid not in seen:
          seen.add(pid)
          w.write(json.dumps(p, ensure_ascii=False) + "\n")
  \<close>
  \<^verbatim>\<open>p.get\<close> gives \<^verbatim>\<open>None\<close> for an absent key. \<^verbatim>\<open>if pid\<close> is Python's truth value. A Python
  set compares its members with \<^verbatim>\<open>==\<close>, under which \<^verbatim>\<open>True == 1\<close> and \<^verbatim>\<open>False == 0\<close>:
  \<open>set_key\<close> is the member as the set holds it.
\<close>

definition get_productId :: "product \<Rightarrow> jval" where
  "get_productId p = (case productId p of None \<Rightarrow> JNull | Some v \<Rightarrow> v)"

fun truthy :: "jval \<Rightarrow> bool" where
  "truthy JNull = False"
| "truthy (JBool b) = b"
| "truthy (JInt i) = (i \<noteq> 0)"
| "truthy (JStr s) = (s \<noteq> [])"

fun set_key :: "jval \<Rightarrow> jval" where
  "set_key (JBool b) = JInt (if b then 1 else 0)"
| "set_key v = v"

fun dedup_records :: "product list \<Rightarrow> jval set \<times> product list \<Rightarrow> jval set \<times> product list" where
  "dedup_records [] st = st"
| "dedup_records (p # arr) (seen, w) =
     (let pid = get_productId p
      in if truthy pid \<and> set_key pid \<notin> seen
         then dedup_records arr (insert (set_key pid) seen, w @ [p])
         else dedup_records arr (seen, w))"

text \<open>
  \<^verbatim>\<open>
  for part in sorted(base_out.glob("products_*.json")):
      if part.name == "products_all.jsonl": continue
      try: arr = json.loads(part.read_text(encoding="utf-8"))
      except Exception: continue
      for p in arr: ...
  \<close>
\<close>

fun dedup_parts :: "directory \<Rightarrow> jval set \<times> product list \<Rightarrow> jval set \<times> product list" where
  "dedup_parts [] st = st"
| "dedup_parts ((name, c) # parts) st =
     (if name = ''products_all.jsonl'' then dedup_parts parts st
      else (case c of
              Malformed \<Rightarrow> dedup_parts parts st
            | JsonArray arr \<Rightarrow> dedup_parts parts (dedup_records arr st)))"

definition aggregate :: "directory \<Rightarrow> jval set \<times> product list" where
  "aggregate dir = dedup_parts (sorted_glob dir) ({}, [])"

text \<open>
  Two notions for stating properties of the loops. \<open>same_id p q\<close>: the set of identifiers takes
  the identifiers of \<open>p\<close> and \<open>q\<close> for the same member. \<open>batches_of parts\<close>: the arrays the outer
  loop reads from the parts it is given, in the order it reads them.
\<close>

definition same_id :: "product \<Rightarrow> product \<Rightarrow> bool" where
  "same_id p q = (set_key (get_productId q) = set_key (get_productId p))"

fun batches_of :: "directory \<Rightarrow> product list list" where
  "batches_of [] = []"
| "batches_of ((name, c) # parts) =
     (if name = ''products_all.jsonl'' then batches_of parts
      else (case c of Malformed \<Rightarrow> batches_of parts | JsonArray arr \<Rightarrow> arr # batches_of parts))"

section \<open>The run: \<^verbatim>\<open>crawl_all_products\<close>\<close>

text \<open>The dictionary written to \<^verbatim>\<open>manifest.json\<close>.\<close>

record manifest =
  timestamp_utc :: string
  pages_written :: nat
  unique_products :: nat
  jsonl :: string

text \<open>
  What a completed run leaves: the page artifacts, the lines of \<^verbatim>\<open>products_all.jsonl\<close>, the
  manifest, and the \<^verbatim>\<open>estimated_total\<close> of \<^verbatim>\<open>meta.json\<close>. The locals \<^verbatim>\<open>seen\<close> and
  \<^verbatim>\<open>total_downloaded\<close> are kept at their final values, so that theorems can speak of them;
  the program writes neither anywhere.
\<close>

record run_result =
  artifacts :: directory
  consolidated :: "product list"
  run_manifest :: manifest
  estimated_total :: int
  seen_ids :: "jval set"
  total_downloaded :: nat

datatype 'a outcome = Diverges | Raised error | Completed 'a

text \<open>
  \<open>ts\<close> is the value of \<^verbatim>\<open>utc_ts()\<close>, \<open>base_out\<close> the path of the run directory and
  \<open>proxy_list\<close> the lines of the proxies file that parse (\<^verbatim>\<open>load_proxies\<close> raises when there
  is none). The discovery request is made by \<^verbatim>\<open>graphql_post_json\<close> itself, with the proxy
  drawn before the call.
\<close>

definition crawl_all_products ::
  "string \<Rightarrow> string \<Rightarrow> string list \<Rightarrow> int \<Rightarrow> network \<Rightarrow> jitter \<Rightarrow> (int \<times> int \<Rightarrow> nat) \<Rightarrow> run_result outcome" where
  "crawl_all_products ts base_out proxy_list window net jit rank =
     (if proxy_list = [] then Raised NoValidProxies
      else
        (case next_proxy (ProxyRotator proxy_list) of
           (proxy0, rot1) \<Rightarrow>
             (case fst (graphql_post_json net (jit (0, window - 1)) (0, window - 1) proxy0 4) of
                Inl e \<Rightarrow> Raised e
              | Inr DataNull \<Rightarrow> Raised AttributeError
              | Inr (DataObj node) \<Rightarrow>
                  (case discover node of
                     (tot, products_first) \<Rightarrow>
                       (case plan_pages tot window of
                          None \<Rightarrow> Diverges
                        | Some pages \<Rightarrow>
                            (case gather (as_completed rank (start_workers rot1 net jit pages))
                                    (length products_first,
                                     write_text (page_name 0 (window - 1)) (JsonArray products_first) [])
                             of
                               Inl e \<Rightarrow> Raised e
                             | Inr (downloaded, dir) \<Rightarrow>
                                 (case aggregate dir of
                                    (seen, w) \<Rightarrow>
                                      Completed
                                        \<lparr>artifacts = dir,
                                         consolidated = w,
                                         run_manifest =
                                           \<lparr>timestamp_utc = ts,
                                            pages_written = length dir,
                                            unique_products = card seen,
                                            jsonl = base_out @ ''/products_all.jsonl''\<rparr>,
                                         estimated_total = tot,
                                         seen_ids = seen,
                                         total_downloaded = downloaded\<rparr>)))))))"

section \<open>Scenarios\<close>

text \<open>Concrete endpoints and jitter sources, for the theorems that evaluate the program.
  \<open>flaky_net\<close> fails the first attempt of every range and answers the second with an empty
  object; \<open>down_net\<close> fails every attempt; \<open>no_jitter\<close> always draws 0 and \<open>half_jitter\<close> always
  draws 1/2.\<close>

lift_definition draw_zero :: unit_draw is 0
  by simp

lift_definition draw_half :: unit_draw is "1/2"
  by simp

definition flaky_net :: network where
  "flaky_net proxy_url rng attempt = (if attempt < 2 then Inl TransportError else Inr (DataObj None))"

definition down_net :: network where
  "down_net proxy_url rng attempt = Inl (if attempt < 4 then TransportError else HTTPStatusError)"

definition no_jitter :: jitter where
  "no_jitter rng attempt = draw_zero"

definition half_jitter :: jitter where
  "half_jitter rng attempt = draw_half"

text \<open>A discovery answer with ten records and a reported total of zero.\<close>

definition ten_records :: "search_node option" where
  "ten_records =
     Some \<lparr>recordsFiltered = Some 0,
           products = Some (map (\<lambda>i. \<lparr>productId = Some (JInt i), payload = ''item''\<rparr>) [1..10])\<rparr>"

text \<open>Two parts read in this order: an identifier that comes twice with different payloads,
  a record without identifier and one whose identifier is the empty string.\<close>

definition dup_parts :: directory where
  "dup_parts =
     [(''products_00000000_00000001.json'',
         JsonArray [\<lparr>productId = Some (JStr ''1''), payload = ''first''\<rparr>,
                    \<lparr>productId = None, payload = ''anonymous''\<rparr>]),
      (''products_00000002_00000003.json'',
         JsonArray [\<lparr>productId = Some (JStr ''1''), payload = ''second''\<rparr>,
                    \<lparr>productId = Some (JInt 2), payload = ''other''\<rparr>,
                    \<lparr>productId = Some (JStr []), payload = ''blank''\<rparr>])]"


definition plan_order :: "int \<times> int \<Rightarrow> nat" where
  "plan_order rng = 0"


text \<open>One part whose records carry the identifiers 0 and the empty string.\<close>

definition zero_id_parts :: directory where
  "zero_id_parts =
     [(''products_00000000_00000001.json'',
         JsonArray [\<lparr>productId = Some (JInt 0), payload = ''zero''\<rparr>,
                    \<lparr>productId = Some (JStr []), payload = ''blank''\<rparr>])]"

text \<open>
  Two notions for stating properties of the file names: the number that a string of decimal
  digits writes (\<open>digits_value\<close>, with \<open>dv\<close> the value of one digit), and being such a string.
\<close>

definition dv :: "char \<Rightarrow> nat" where
  "dv c = of_char c - 48"

definition digits_value :: "string \<Rightarrow> nat" where
  "digits_value s = foldl (\<lambda>a c. 10 * a + dv c) 0 s"

definition is_digits :: "string \<Rightarrow> bool" where
  "is_digits s = (\<forall>c\<in>set s. \<exists>d<10. c = digit d)"



text \<open>An endpoint for a window of 50 000 000 that reports a total of 150 000 000: the second
  and the third range answer one record each, with the same identifier and different payloads;
  and the order of completion in which the second range ends last.\<close>

definition wide_net :: network where
  "wide_net proxy_url rng attempt =
     Inr (DataObj (Some \<lparr>recordsFiltered = Some 150000000,
            products = Some (if rng = (50000000, 99999999)
                             then [\<lparr>productId = Some (JStr ''a''), payload = ''low''\<rparr>]
                             else if rng = (100000000, 149999999)
                             then [\<lparr>productId = Some (JStr ''a''), payload = ''high''\<rparr>]
                             else [])\<rparr>))"

definition low_range_last :: "int \<times> int \<Rightarrow> nat" where
  "low_range_last rng = (if rng = (50000000, 99999999) then 1 else 0)"

text \<open>Three ranges below 100 000 000, listed out of order, and the records of their files.\<close>

definition near_pages :: "(int \<times> int) list" where
  "near_pages = [(96, 99), (0, 47), (48, 95)]"

definition near_records :: "int \<times> int \<Rightarrow> product list" where
  "near_records rng =
     (if rng = (48, 95) then [\<lparr>productId = Some (JStr ''a''), payload = ''low''\<rparr>]
      else if rng = (96, 99) then [\<lparr>productId = Some (JStr ''a''), payload = ''high''\<rparr>]
      else [])"

section \<open>Properties of the proxy pool\<close>

lemma rot_inv_init: "rot_inv (ProxyRotator ps)"
  by (cases ps) (simp_all add: rot_inv_def ProxyRotator_def)

lemma rot_inv_next: "rot_inv r \<Longrightarrow> rot_inv (snd (next_proxy r))"
  by (auto simp: rot_inv_def next_proxy_def)

lemma next_proxy_fields:
  "proxies (snd (next_proxy r)) = proxies r" "n (snd (next_proxy r)) = n r"
  by (simp_all add: next_proxy_def)

lemma draws_from:
  "n r = length (proxies r) \<Longrightarrow> 0 < n r \<Longrightarrow> idx r < n r \<Longrightarrow>
   fst (draws k r) = map (\<lambda>j. Some (proxies r ! ((idx r + j) mod n r))) [0..<k] \<and>
   proxies (snd (draws k r)) = proxies r \<and> n (snd (draws k r)) = n r \<and>
   idx (snd (draws k r)) = (idx r + k) mod n r"
proof (induction k arbitrary: r)
  case 0
  then show ?case by simp
next
  case (Suc k)
  let ?r' = "r\<lparr>idx := (idx r + 1) mod n r\<rparr>"
  have step: "next_proxy r = (Some (proxies r ! idx r), ?r')"
    using Suc.prems by (simp add: next_proxy_def)
  have pre: "n ?r' = length (proxies ?r')" "0 < n ?r'" "idx ?r' < n ?r'"
    using Suc.prems by simp_all
  note ih = Suc.IH [OF pre]
  have shift: "(Suc (idx r) mod n r + j) mod n r = Suc (idx r + j) mod n r" for j
    by (metis add_Suc mod_add_left_eq)
  have ih': "fst (draws k ?r') = map (\<lambda>j. Some (proxies r ! ((idx r + Suc j) mod n r))) [0..<k]"
            "proxies (snd (draws k ?r')) = proxies r" "n (snd (draws k ?r')) = n r"
            "idx (snd (draws k ?r')) = (idx r + Suc k) mod n r"
    using ih by (simp_all add: shift)
  have lst: "map (\<lambda>j. Some (proxies r ! ((idx r + j) mod n r))) [0..<Suc k] =
             Some (proxies r ! idx r) # map (\<lambda>j. Some (proxies r ! ((idx r + Suc j) mod n r))) [0..<k]"
    using Suc.prems by - (rule nth_equalityI, auto simp: nth_Cons' simp del: upt_Suc)
  show ?case
    unfolding lst draws.simps step using ih' by (simp add: split_beta)
qed

text \<open>
  C6. For a pool built from a non-empty list of \<open>N\<close> addresses, \<open>N\<close> consecutive calls of
  \<^verbatim>\<open>next\<close> return the addresses once each in insertion order, the call after them returns
  the first address again, and in general call number \<open>k\<close> (counted from 0) returns the
  address at position \<open>k mod N\<close>, the cursor being the cyclic successor modulo \<open>N\<close>.
\<close>

theorem rotator_round_robin:
  assumes "ps \<noteq> []"
  shows "fst (draws (length ps) (ProxyRotator ps)) = map Some ps \<and>
         fst (next_proxy (snd (draws (length ps) (ProxyRotator ps)))) = Some (hd ps) \<and>
         (\<forall>k. fst (next_proxy (snd (draws k (ProxyRotator ps)))) = Some (ps ! (k mod length ps)) \<and>
              idx (snd (next_proxy (snd (draws k (ProxyRotator ps))))) = (k + 1) mod length ps)"
proof -
  let ?r = "ProxyRotator ps"
  have pre: "n ?r = length (proxies ?r)" "0 < n ?r" "idx ?r < n ?r"
    using assms by (simp_all add: ProxyRotator_def)
  have flds: "proxies ?r = ps" "n ?r = length ps" "idx ?r = 0"
    by (simp_all add: ProxyRotator_def)
  have d: "fst (draws k ?r) = map (\<lambda>j. Some (ps ! (j mod length ps))) [0..<k]"
          "proxies (snd (draws k ?r)) = ps" "n (snd (draws k ?r)) = length ps"
          "idx (snd (draws k ?r)) = k mod length ps" for k
    using draws_from [OF pre, of k] by (simp_all add: flds)
  have "map (\<lambda>j. Some (ps ! (j mod length ps))) [0..<length ps] = map Some ps"
    by (rule nth_equalityI) simp_all
  then have a: "fst (draws (length ps) ?r) = map Some ps"
    using d(1) [of "length ps"] by simp
  have k: "fst (next_proxy (snd (draws k ?r))) = Some (ps ! (k mod length ps))" for k
    using assms by (simp add: next_proxy_def d)
  have b: "fst (next_proxy (snd (draws (length ps) ?r))) = Some (hd ps)"
    using assms by (simp add: next_proxy_def d hd_conv_nth)
  have c: "idx (snd (next_proxy (snd (draws k ?r)))) = (k + 1) mod length ps" for k
    using assms by (simp add: next_proxy_def d mod_Suc_eq)
  show ?thesis using a b k c by blast
qed

theorem rotator_round_robin_witness:
  "[''a'', ''b'', ''c''] \<noteq> ([] :: string list) \<and>
   fst (draws (length [''a'', ''b'', ''c'']) (ProxyRotator [''a'', ''b'', ''c''])) =
     [Some ''a'', Some ''b'', Some ''c''] \<and>
   fst (next_proxy (snd (draws (length [''a'', ''b'', ''c'']) (ProxyRotator [''a'', ''b'', ''c''])))) =
     Some ''a''"
proof -
  have ne: "[''a'', ''b'', ''c''] \<noteq> ([] :: string list)" by simp
  from rotator_round_robin [OF ne] show ?thesis by (simp del: draws.simps)
qed

section \<open>Properties of the retry loop\<close>

lemma posts_append: "posts (xs @ ys) = posts xs @ posts ys"
  by (induction xs rule: posts.induct) simp_all

lemma sleeps_append: "sleeps (xs @ ys) = sleeps xs @ sleeps ys"
  by (induction xs rule: sleeps.induct) simp_all

lemma retry_loop_all_fail:
  "\<forall>a\<in>set as. isl (net p v a) \<Longrightarrow>
   retry_loop net jit v p as lst tr =
     (Inl (if as = [] then lst else Some (projl (net p v (last as)))),
      tr @ concat (map (\<lambda>a. [Post p v, Sleep (sleep_s a (jit a))]) as))"
proof (induction as arbitrary: lst tr)
  case Nil
  then show ?case by simp
next
  case (Cons a as)
  then obtain e where e: "net p v a = Inl e" by (cases "net p v a") auto
  show ?case using Cons e by (cases as) simp_all
qed

lemma posts_attempts: "posts (concat (map (\<lambda>a. [Post p v, Sleep (f a)]) as)) = replicate (length as) p"
  by (induction as) simp_all

lemma sleeps_attempts: "sleeps (concat (map (\<lambda>a. [Post p v, Sleep (f a)]) as)) = map f as"
  by (induction as) simp_all

lemma retry_loop_posts:
  "\<exists>k. posts (snd (retry_loop net jit v p as lst tr)) = posts tr @ replicate k p \<and> k \<le> length as
       \<and> (as = [] \<or> 1 \<le> k)"
proof (induction as arbitrary: lst tr)
  case Nil
  then show ?case by simp
next
  case (Cons a as)
  show ?case
  proof (cases "net p v a")
    case (Inr d)
    have "posts (snd (retry_loop net jit v p (a # as) lst tr)) = posts tr @ replicate 1 p"
      using Inr by (simp add: posts_append)
    then show ?thesis by (intro exI [of _ 1]) simp
  next
    case (Inl e)
    let ?tr = "tr @ [Post p v, Sleep (sleep_s a (jit a))]"
    obtain k where k: "posts (snd (retry_loop net jit v p as (Some e) ?tr)) = posts ?tr @ replicate k p"
      "k \<le> length as"
      using Cons.IH [of "Some e" ?tr] by blast
    have "posts (snd (retry_loop net jit v p (a # as) lst tr)) = posts tr @ replicate (Suc k) p"
      using Inl k(1) by (simp add: posts_append)
    then show ?thesis using k(2) by (intro exI [of _ "Suc k"]) simp
  qed
qed

text \<open>
  C5. When every attempt of a request fails, \<^verbatim>\<open>graphql_post_json\<close> makes exactly
  \<open>max_retries\<close> network calls (four by default) and raises the terminal failure that carries
  the exception of the last attempt. After failed attempt \<open>k\<close> it sleeps \<open>min (2 * k) 8\<close> plus
  the jitter \<^verbatim>\<open>random.uniform(0.0, 0.5)\<close>. The jitter lies in \<open>[0, 1/2)\<close>, and it is spread as
  the unit draw is: it falls in \<open>[a, b)\<close> exactly when the draw falls in \<open>[2a, 2b)\<close>. The
  durations grow with \<open>k\<close> up to the cap (strictly, for attempts 1 to 4), the part without
  jitter never decreases, and from attempt 4 on the duration is 8 plus jitter.
\<close>

theorem permanent_failure:
  assumes fail: "\<forall>a\<in>{1..max_retries}. isl (net proxy_url variables a)"
    and pos: "1 \<le> max_retries"
  shows "fst (graphql_post_json net jit variables proxy_url max_retries) =
           Inl (RequestFailed max_retries (Some (projl (net proxy_url variables max_retries)))) \<and>
         posts (snd (graphql_post_json net jit variables proxy_url max_retries)) =
           replicate (nat max_retries) proxy_url \<and>
         sleeps (snd (graphql_post_json net jit variables proxy_url max_retries)) =
           map (\<lambda>k. min (2 * real_of_int k) 8 + uniform 0 (1/2) (jit k)) [1..max_retries] \<and>
         (\<forall>u. 0 \<le> uniform 0 (1/2) u \<and> uniform 0 (1/2) u < 1/2) \<and>
         (\<forall>a b u. (a \<le> uniform 0 (1/2) u \<and> uniform 0 (1/2) u < b) =
                    (2 * a \<le> Rep_unit_draw u \<and> Rep_unit_draw u < 2 * b)) \<and>
         (\<forall>k k'. 1 \<le> k \<and> k < k' \<and> k' \<le> 4 \<longrightarrow> sleep_s k (jit k) < sleep_s k' (jit k')) \<and>
         (\<forall>k k'. 1 \<le> k \<and> k \<le> k' \<longrightarrow> min (2 * real_of_int k) 8 \<le> min (2 * real_of_int k') 8) \<and>
         (\<forall>k. 4 \<le> k \<longrightarrow> sleep_s k (jit k) = 8 + uniform 0 (1/2) (jit k))"
proof -
  have all: "\<forall>a\<in>set [1..max_retries]. isl (net proxy_url variables a)"
    using fail by simp
  have ne: "[1..max_retries] \<noteq> []" using pos by simp
  have lst: "last [1..max_retries] = max_retries"
    using pos by (simp add: upto_rec2)
  have rl: "retry_loop net jit variables proxy_url [1..max_retries] None [] =
     (Inl (if [1..max_retries] = [] then None
           else Some (projl (net proxy_url variables (last [1..max_retries])))),
      [] @ concat (map (\<lambda>a. [Post proxy_url variables, Sleep (sleep_s a (jit a))]) [1..max_retries]))"
    using all by (rule retry_loop_all_fail)
  have g: "graphql_post_json net jit variables proxy_url max_retries =
           (Inl (RequestFailed max_retries (Some (projl (net proxy_url variables max_retries)))),
            concat (map (\<lambda>a. [Post proxy_url variables, Sleep (sleep_s a (jit a))]) [1..max_retries]))"
    unfolding graphql_post_json_def rl using ne lst by simp
  have u1: "0 \<le> uniform 0 (1/2) u \<and> uniform 0 (1/2) u < 1/2" for u
    using Rep_unit_draw [of u] by (simp add: uniform_def)
  have u2: "(a \<le> uniform 0 (1/2) u \<and> uniform 0 (1/2) u < b) =
            (2 * a \<le> Rep_unit_draw u \<and> Rep_unit_draw u < 2 * b)" for a b u
    by (auto simp: uniform_def)
  have m1: "sleep_s k (jit k) < sleep_s k' (jit k')" if "1 \<le> k" "k < k'" "k' \<le> 4" for k k'
  proof -
    have "real_of_int k + 1 \<le> real_of_int k'" using that(2) by linarith
    moreover have "real_of_int k' \<le> 4" using that(3) by linarith
    moreover have "0 \<le> uniform 0 (1/2) (jit k')" "uniform 0 (1/2) (jit k) < 1/2"
      using u1 by blast+
    ultimately show ?thesis unfolding sleep_s_def by (simp add: min_def)
  qed
  have m2: "min (2 * real_of_int k) 8 \<le> min (2 * real_of_int k') 8" if "k \<le> k'" for k k'
    using that by (simp add: min_def)
  have m3: "sleep_s k (jit k) = 8 + uniform 0 (1/2) (jit k)" if "4 \<le> k" for k
  proof -
    have "4 \<le> real_of_int k" using that by linarith
    then show ?thesis unfolding sleep_s_def by (simp add: min_def)
  qed
  show ?thesis
  proof (intro conjI allI impI)
    show "fst (graphql_post_json net jit variables proxy_url max_retries) =
           Inl (RequestFailed max_retries (Some (projl (net proxy_url variables max_retries))))"
      by (simp add: g)
    show "posts (snd (graphql_post_json net jit variables proxy_url max_retries)) =
           replicate (nat max_retries) proxy_url"
      by (simp add: g posts_attempts)
    show "sleeps (snd (graphql_post_json net jit variables proxy_url max_retries)) =
           map (\<lambda>k. min (2 * real_of_int k) 8 + uniform 0 (1/2) (jit k)) [1..max_retries]"
      by (simp add: g sleeps_attempts sleep_s_def [abs_def])
    show "0 \<le> uniform 0 (1/2) u" "uniform 0 (1/2) u < 1/2" for u
      using u1 [of u] by simp_all
    show "(a \<le> uniform 0 (1/2) u \<and> uniform 0 (1/2) u < b) =
          (2 * a \<le> Rep_unit_draw u \<and> Rep_unit_draw u < 2 * b)" for a b u
      by (rule u2)
    show "sleep_s k (jit k) < sleep_s k' (jit k')" if "1 \<le> k \<and> k < k' \<and> k' \<le> 4" for k k'
      using that m1 by blast
    show "min (2 * real_of_int k) 8 \<le> min (2 * real_of_int k') 8" if "1 \<le> k \<and> k \<le> k'" for k k'
      using that m2 by blast
    show "sleep_s k (jit k) = 8 + uniform 0 (1/2) (jit k)" if "4 \<le> k" for k
      using that by (rule m3)
  qed
qed

lemma upto_1_4: "[1..4] = [1, 2, 3, (4::int)]"
  by (simp add: upto_rec1)

theorem permanent_failure_witness:
  "fst (graphql_post_json down_net (half_jitter (48, 95)) (48, 95) (Some ''p0'') 4) =
     Inl (RequestFailed 4 (Some HTTPStatusError)) \<and>
   posts (snd (graphql_post_json down_net (half_jitter (48, 95)) (48, 95) (Some ''p0'') 4)) =
     [Some ''p0'', Some ''p0'', Some ''p0'', Some ''p0''] \<and>
   sleeps (snd (graphql_post_json down_net (half_jitter (48, 95)) (48, 95) (Some ''p0'') 4)) =
     [9/4, 17/4, 25/4, 33/4]"
proof -
  have f: "\<forall>a\<in>{1..4}. isl (down_net (Some ''p0'') (48, 95) a)"
    by (simp add: down_net_def)
  have p: "(1::int) \<le> 4" by simp
  from permanent_failure [where net = down_net and jit = "half_jitter (48, 95)" and max_retries = 4
      and proxy_url = "Some ''p0''" and variables = "(48, 95)", OF f p]
  show ?thesis
    by (simp add: down_net_def half_jitter_def upto_1_4 numeral_eq_Suc uniform_def draw_half.rep_eq)
qed

text \<open>
  C3, as the program has it. \<^verbatim>\<open>fetch_page\<close> draws one proxy, before the first attempt, and
  hands it to \<^verbatim>\<open>graphql_post_json\<close>, which uses it for every attempt: whatever the number of
  attempts (between one and four), the rotation cursor advances exactly once and all the
  network calls of the range go through the proxy drawn.
\<close>

theorem fetch_page_one_draw:
  "fst (snd (fetch_page rot net jit rng)) = snd (next_proxy rot) \<and>
   (\<exists>k. posts (snd (snd (fetch_page rot net jit rng))) = replicate k (fst (next_proxy rot)) \<and>
        1 \<le> k \<and> k \<le> 4) \<and>
   (n rot \<noteq> 0 \<longrightarrow> idx (fst (snd (fetch_page rot net jit rng))) = (idx rot + 1) mod n rot)"
proof -
  obtain proxy rot' where np: "next_proxy rot = (proxy, rot')" by (cases "next_proxy rot")
  let ?g = "graphql_post_json net (jit rng) rng proxy 4"
  have a: "fst (snd (fetch_page rot net jit rng)) = rot'"
    by (simp add: fetch_page_def np split: prod.splits sum.splits)
  have tr: "snd (snd (fetch_page rot net jit rng)) = snd ?g"
    by (simp add: fetch_page_def np split: prod.splits sum.splits)
  have g: "snd ?g = snd (retry_loop net (jit rng) rng proxy [1..4] None [])"
    by (simp add: graphql_post_json_def split: prod.splits sum.splits)
  obtain k where k: "posts (snd (retry_loop net (jit rng) rng proxy [1..4] None [])) = posts [] @ replicate k proxy"
    "k \<le> length [1..(4::int)]" "[1..(4::int)] = [] \<or> 1 \<le> k"
    using retry_loop_posts [of net "jit rng" rng proxy "[1..4]" None "[]"] by blast
  have b: "\<exists>k. posts (snd (snd (fetch_page rot net jit rng))) = replicate k (fst (next_proxy rot)) \<and> 1 \<le> k \<and> k \<le> 4"
    using k by (intro exI [of _ k]) (simp add: tr g np upto_1_4)
  have c: "idx rot' = (idx rot + 1) mod n rot" if "n rot \<noteq> 0"
    using np that by (auto simp: next_proxy_def)
  show ?thesis using a b c np by simp
qed

theorem fetch_page_one_draw_witness:
  "fst (snd (fetch_page (ProxyRotator [''p0'', ''p1'']) down_net no_jitter (48, 95))) =
     \<lparr>proxies = [''p0'', ''p1''], n = 2, idx = 1\<rparr> \<and>
   posts (snd (snd (fetch_page (ProxyRotator [''p0'', ''p1'']) down_net no_jitter (48, 95)))) =
     [Some ''p0'', Some ''p0'', Some ''p0'', Some ''p0'']"
proof -
  have "n (ProxyRotator [''p0'', ''p1'']) \<noteq> 0" by (simp add: ProxyRotator_def)
  with fetch_page_one_draw [of "ProxyRotator [''p0'', ''p1'']" down_net no_jitter "(48, 95)"]
  show ?thesis
    by (simp add: fetch_page_def graphql_post_json_def next_proxy_def ProxyRotator_def down_net_def
        upto_1_4 split: prod.splits)
qed

text \<open>
  C3 as stated fails: with three proxies, a range that needs two attempts leaves the cursor at
  1, not 2, and its second attempt goes through the first proxy again.
\<close>

theorem retry_same_proxy_counterexample:
  "fetch_page (ProxyRotator [''p0'', ''p1'', ''p2'']) flaky_net no_jitter (48, 95) =
     (Inr (48, DataObj None),
      \<lparr>proxies = [''p0'', ''p1'', ''p2''], n = 3, idx = 1\<rparr>,
      [Post (Some ''p0'') (48, 95), Sleep 2, Post (Some ''p0'') (48, 95)])"
  by (simp add: fetch_page_def graphql_post_json_def next_proxy_def ProxyRotator_def flaky_net_def
      no_jitter_def sleep_s_def uniform_def draw_zero.rep_eq upto_1_4)

section \<open>Properties of the planner\<close>

lemma map_upt_shift: "map f [0..<Suc k] = f 0 # map (\<lambda>i. f (Suc i)) [0..<k]"
  by (rule nth_equalityI) (auto simp: nth_Cons' simp del: upt_Suc)

lemma plan_rolling_closed:
  "plan_rolling w k c ps = ps @ map (\<lambda>i. (c + int i * w, c + int i * w + w - 1)) [0..<k]"
proof (induction k arbitrary: c ps)
  case 0
  then show ?case by simp
next
  case (Suc k)
  have "plan_rolling w (Suc k) c ps =
        (ps @ [(c, c + w - 1)]) @ map (\<lambda>i. (c + w - 1 + 1 + int i * w, c + w - 1 + 1 + int i * w + w - 1)) [0..<k]"
    by (simp only: plan_rolling.simps Suc.IH)
  also have "\<dots> = ps @ map (\<lambda>i. (c + int i * w, c + int i * w + w - 1)) [0..<Suc k]"
    unfolding map_upt_shift [of _ k] by (simp add: algebra_simps)
  finally show ?case .
qed

lemma plan_known_closed:
  assumes w: "0 < w"
  shows "plan_known w l c ps =
         Some (ps @ map (\<lambda>i. (c + int i * w, min (c + int i * w + w - 1) l)) [0..<nat ((l - c + w) div w)])"
proof (induction m \<equiv> "nat ((l - c + w) div w)" arbitrary: c ps)
  case 0
  have "(l - c + w) div w \<le> 0" using 0 by simp
  then have "l - c + w < w"
    using w pos_imp_zdiv_pos_iff [of w "l - c + w"] by linarith
  then have "\<not> c \<le> l" by simp
  then show ?case using 0 [symmetric] by (subst plan_known.simps) simp
next
  case (Suc m)
  have d: "(l - c + w) div w = (l - c) div w + 1" using w by simp
  have "0 < (l - c + w) div w" using Suc(2) by linarith
  then have nn: "0 \<le> (l - c) div w" using d by linarith
  then have cl: "c \<le> l" using w by (simp add: pos_imp_zdiv_nonneg_iff)
  have m: "m = nat ((l - c) div w)" using Suc(2) d nn by linarith
  let ?t = "min (c + w - 1) l"
  have cnt: "m = nat ((l - (?t + 1) + w) div w)"
  proof (cases "c + w - 1 \<le> l")
    case True
    then have "l - (?t + 1) + w = l - c" by simp
    then show ?thesis using m by simp
  next
    case False
    then have lt: "l - c < w" by simp
    then have "(l - c) div w = 0" using cl by simp
    moreover have "l - (?t + 1) + w = w - 1" using False by simp
    moreover have "(w - 1) div w = 0" using w by simp
    ultimately show ?thesis using m by simp
  qed
  have tail: "map (\<lambda>i. (?t + 1 + int i * w, min (?t + 1 + int i * w + w - 1) l)) [0..<m] =
              map (\<lambda>i. (c + int (Suc i) * w, min (c + int (Suc i) * w + w - 1) l)) [0..<m]"
  proof (cases "c + w - 1 \<le> l")
    case True
    then have "?t + 1 = c + w" by simp
    then show ?thesis by (simp add: algebra_simps)
  next
    case False
    then have "(l - c) div w = 0" using cl by simp
    then have "m = 0" using m by simp
    then show ?thesis by simp
  qed
  have "plan_known w l c ps = plan_known w l (?t + 1) (ps @ [(c, ?t)])"
    using cl by (subst plan_known.simps) simp
  also have "\<dots> = Some ((ps @ [(c, ?t)]) @
      map (\<lambda>i. (?t + 1 + int i * w, min (?t + 1 + int i * w + w - 1) l)) [0..<nat ((l - (?t + 1) + w) div w)])"
    by (rule Suc(1) [OF cnt])
  also have "\<dots> = Some (ps @ map (\<lambda>i. (c + int i * w, min (c + int i * w + w - 1) l)) [0..<Suc m])"
    unfolding cnt [symmetric] tail map_upt_shift [of _ m] by simp
  finally show ?case using Suc(2) by simp
qed

lemma plan_known_stuck_aux:
  assumes "plan_known w l c ps = Some r"
  shows "\<not> (w = 0 \<and> c \<le> l)"
proof (rule plan_known.raw_induct [where P = "\<lambda>w l c ps r. \<not> (w = 0 \<and> c \<le> l)", OF _ assms])
  fix pk :: "int \<Rightarrow> int \<Rightarrow> int \<Rightarrow> (int \<times> int) list \<Rightarrow> (int \<times> int) list option"
    and window last_index current :: int and pages r :: "(int \<times> int) list"
  assume IH: "\<And>w l c ps y. pk w l c ps = Some y \<Longrightarrow> \<not> (w = 0 \<and> c \<le> l)"
    and eq: "(if current \<le> last_index
              then pk window last_index (min (current + window - 1) last_index + 1)
                     (pages @ [(current, min (current + window - 1) last_index)])
              else Some pages) = Some r"
  show "\<not> (window = 0 \<and> current \<le> last_index)"
  proof
    assume a: "window = 0 \<and> current \<le> last_index"
    then have "min (current + window - 1) last_index + 1 = current" by simp
    with a eq have "pk window last_index current (pages @ [(current, current - 1)]) = Some r"
      by simp
    from IH [OF this] a show False by simp
  qed
qed

lemma plan_known_stuck: "plan_known 0 0 0 ps = None"
  using plan_known_stuck_aux [of 0 0 0 ps] by (cases "plan_known 0 0 0 ps") auto


lemma plan_pages_small: "tot \<le> w \<Longrightarrow> plan_pages tot w = Some (plan_rolling w max_safety_pages w [])"
  by (simp add: plan_pages_def)

text \<open>
  C4, for windows of at least one record. With a known total \<open>T\<close> and a window \<open>W\<close>,
  \<open>1 \<le> W < T\<close>, the planner returns, and the ranges it plans are
  \<open>[W, 2W - 1], [2W, 3W - 1], \<dots>\<close>, the last one cut at \<open>T - 1\<close>: they start at \<open>W\<close>, each
  starts right after the one before it, each but the last holds exactly \<open>W\<close> indices and the
  last at most \<open>W\<close>, they are pairwise apart, their union is the interval \<open>[W, T - 1]\<close>, and
  the discovery range \<open>[0, W - 1]\<close> is not among them.
\<close>

theorem planned_ranges_partition:
  assumes w: "1 \<le> W" and t: "W < T"
  shows "\<exists>ps. plan_pages T W = Some ps \<and>
           ps = map (\<lambda>k. (W + int k * W, min (W + int k * W + W - 1) (T - 1))) [0..<nat ((T - 1) div W)] \<and>
           ps \<noteq> [] \<and> fst (hd ps) = W \<and> snd (last ps) = T - 1 \<and>
           (\<forall>i. Suc i < length ps \<longrightarrow>
                fst (ps ! Suc i) = snd (ps ! i) + 1 \<and> snd (ps ! i) - fst (ps ! i) + 1 = W) \<and>
           (\<forall>i<length ps. fst (ps ! i) \<le> snd (ps ! i) \<and> snd (ps ! i) - fst (ps ! i) + 1 \<le> W) \<and>
           (\<forall>i j. i < j \<and> j < length ps \<longrightarrow> snd (ps ! i) < fst (ps ! j)) \<and>
           (\<Union>(f, t)\<in>set ps. {f..t}) = {W..T - 1} \<and>
           (0, W - 1) \<notin> set ps"
proof -
  define q where "q = (T - 1) div W"
  define m where "m = nat q"
  define pg where "pg k = (W + int k * W, min (W + int k * W + W - 1) (T - 1))" for k
  define ps where "ps = map pg [0..<m]"
  have wpos: "0 < W" using w by simp
  have q1: "1 \<le> q"
    using pos_imp_zdiv_pos_iff [OF wpos, of "T - 1"] t unfolding q_def by linarith
  have qlo: "q * W \<le> T - 1"
  proof -
    have "0 \<le> (T - 1) mod W" using wpos by simp
    moreover have "T - 1 = q * W + (T - 1) mod W" unfolding q_def by simp
    ultimately show ?thesis by linarith
  qed
  have qhi: "T - 1 < q * W + W"
  proof -
    have "(T - 1) mod W < W" using wpos by simp
    moreover have "T - 1 = q * W + (T - 1) mod W" unfolding q_def by simp
    ultimately show ?thesis by linarith
  qed
  have mq: "int m = q" using q1 by (simp add: m_def)
  have m1: "1 \<le> m" using q1 by (simp add: m_def)
  have len: "length ps = m" by (simp add: ps_def)
  have nth: "ps ! k = pg k" if "k < m" for k using that by (simp add: ps_def)
  have kpos: "0 \<le> int k * W" for k using wpos by simp
  have below: "(int k + 1) * W \<le> T - 1" if "k < m" for k
  proof -
    have "int k + 1 \<le> q" using that mq by linarith
    then have "(int k + 1) * W \<le> q * W" using wpos by (simp add: mult_right_mono)
    then show ?thesis using qlo by linarith
  qed
  have f: "fst (pg k) = W + int k * W" for k by (simp add: pg_def)
  have s_full: "snd (pg k) = W + int k * W + W - 1" if "Suc k < m" for k
    using below [OF that] by (simp add: pg_def algebra_simps)
  have s_le: "snd (pg k) \<le> W + int k * W + W - 1" for k by (simp add: pg_def)
  have s_ge: "W + int k * W \<le> snd (pg k)" if "k < m" for k
    using below [OF that] w by (simp add: pg_def algebra_simps)
  have s_top: "snd (pg k) \<le> T - 1" for k by (simp add: pg_def)
  have plan: "plan_pages T W = Some ps"
  proof -
    have "T \<noteq> 0 \<and> T > W" using w t by simp
    then have "plan_pages T W = plan_known W (T - 1) W []" by (simp add: plan_pages_def)
    also have "\<dots> = Some ([] @ map (\<lambda>i. (W + int i * W, min (W + int i * W + W - 1) (T - 1)))
                       [0..<nat ((T - 1 - W + W) div W)])"
      by (rule plan_known_closed [OF wpos])
    finally show ?thesis by (simp add: ps_def pg_def [abs_def] m_def q_def)
  qed
  have form: "ps = map (\<lambda>k. (W + int k * W, min (W + int k * W + W - 1) (T - 1))) [0..<nat ((T - 1) div W)]"
    by (simp add: ps_def pg_def [abs_def] m_def q_def)
  have ne: "ps \<noteq> []" using m1 len by (cases ps) auto
  have hd: "fst (hd ps) = W"
    using ne nth [of 0] m1 by (simp add: hd_conv_nth f)
  have last: "snd (last ps) = T - 1"
  proof -
    have "last ps = pg (m - 1)" using ne len nth [of "m - 1"] m1 by (simp add: last_conv_nth)
    moreover have "int (m - 1) * W = q * W - W" using m1 mq by (simp add: algebra_simps of_nat_diff)
    ultimately show ?thesis using qhi by (simp add: pg_def)
  qed
  have step: "fst (ps ! Suc i) = snd (ps ! i) + 1 \<and> snd (ps ! i) - fst (ps ! i) + 1 = W"
    if "Suc i < length ps" for i
  proof -
    have "Suc i < m" "i < m" using that len by simp_all
    then show ?thesis using s_full [of i] by (simp add: nth f algebra_simps)
  qed
  have size: "fst (ps ! i) \<le> snd (ps ! i) \<and> snd (ps ! i) - fst (ps ! i) + 1 \<le> W"
    if "i < length ps" for i
  proof -
    have "i < m" using that len by simp
    then show ?thesis using s_ge [of i] s_le [of i] by (simp add: nth f)
  qed
  have apart: "snd (ps ! i) < fst (ps ! j)" if "i < j \<and> j < length ps" for i j
  proof -
    have ij: "i < m" "j < m" "int i + 1 \<le> int j" using that len by simp_all
    then have "(int i + 1) * W \<le> int j * W" using wpos by (simp add: mult_right_mono)
    then show ?thesis using s_le [of i] ij by (simp add: nth f algebra_simps)
  qed
  have union: "(\<Union>(f, t)\<in>set ps. {f..t}) = {W..T - 1}"
  proof (rule set_eqI, rule iffI)
    fix x assume "x \<in> (\<Union>(f, t)\<in>set ps. {f..t})"
    then obtain pr where pr: "pr \<in> set ps" "x \<in> {fst pr..snd pr}"
      unfolding split_beta by blast
    from pr(1) obtain k where "k < length ps" "ps ! k = pr"
      unfolding in_set_conv_nth by blast
    with pr(2) have k: "k < m" "fst (pg k) \<le> x" "x \<le> snd (pg k)"
      using nth [of k] len by simp_all
    then show "x \<in> {W..T - 1}" using kpos [of k] s_top [of k] by (simp add: f)
  next
    fix x assume x: "x \<in> {W..T - 1}"
    define p where "p = x div W"
    have p1: "1 \<le> p" using pos_imp_zdiv_pos_iff [OF wpos, of x] x unfolding p_def by simp
    have pq: "p \<le> q" unfolding p_def q_def using x wpos by (simp add: zdiv_mono1)
    have xm: "x = p * W + x mod W" unfolding p_def by simp
    have xr: "0 \<le> x mod W" "x mod W < W" using wpos by simp_all
    define k where "k = nat (p - 1)"
    have km: "k < m" using p1 pq unfolding k_def m_def by linarith
    have ik: "int k * W = p * W - W" using p1 by (simp add: k_def algebra_simps)
    have "fst (pg k) \<le> x" using xm xr ik by (simp add: f)
    moreover have "x \<le> snd (pg k)" using xm xr ik x by (simp add: pg_def)
    moreover have "pg k \<in> set ps" using km by (simp add: ps_def)
    ultimately show "x \<in> (\<Union>(f, t)\<in>set ps. {f..t})"
      by (auto intro!: bexI [of _ "pg k"] simp: split_beta)
  qed
  have nodisc: "(0, W - 1) \<notin> set ps"
  proof
    assume "(0, W - 1) \<in> set ps"
    then obtain k where "k < length ps" "ps ! k = (0, W - 1)"
      unfolding in_set_conv_nth by blast
    then have "fst (pg k) = 0" using nth [of k] len by simp
    then show False using kpos [of k] wpos by (simp add: f)
  qed
  show ?thesis
  proof (intro exI [of _ ps] conjI)
    show "plan_pages T W = Some ps" by (rule plan)
    show "ps = map (\<lambda>k. (W + int k * W, min (W + int k * W + W - 1) (T - 1))) [0..<nat ((T - 1) div W)]"
      by (rule form)
    show "ps \<noteq> []" by (rule ne)
    show "fst (hd ps) = W" by (rule hd)
    show "snd (last ps) = T - 1" by (rule last)
    show "\<forall>i. Suc i < length ps \<longrightarrow>
            fst (ps ! Suc i) = snd (ps ! i) + 1 \<and> snd (ps ! i) - fst (ps ! i) + 1 = W"
      using step by (intro allI impI)
    show "\<forall>i<length ps. fst (ps ! i) \<le> snd (ps ! i) \<and> snd (ps ! i) - fst (ps ! i) + 1 \<le> W"
      using size by (intro allI impI)
    show "\<forall>i j. i < j \<and> j < length ps \<longrightarrow> snd (ps ! i) < fst (ps ! j)"
      using apart by (intro allI impI)
    show "(\<Union>(f, t)\<in>set ps. {f..t}) = {W..T - 1}" by (rule union)
    show "(0, W - 1) \<notin> set ps" by (rule nodisc)
  qed
qed


theorem planned_ranges_partition_witness:
  "plan_pages 500 48 =
     Some [(48, 95), (96, 143), (144, 191), (192, 239), (240, 287), (288, 335),
           (336, 383), (384, 431), (432, 479), (480, 499)]"
proof -
  have "(1::int) \<le> 48" "(48::int) < 500" by simp_all
  from planned_ranges_partition [OF this] obtain ps where
    "plan_pages 500 48 = Some ps"
    "ps = map (\<lambda>k. (48 + int k * 48, min (48 + int k * 48 + 48 - 1) (500 - 1))) [0..<nat ((500 - 1) div 48)]"
    by blast
  then show ?thesis by (simp add: upt_rec numeral_eq_Suc)
qed

text \<open>
  C4 as stated, for every window below the total, fails at the window 0: the loop never
  advances \<^verbatim>\<open>current\<close> and the planner does not return.
\<close>

theorem zero_window_counterexample: "plan_pages 1 0 = None"
  by (simp add: plan_pages_def plan_known_stuck)

text \<open>
  C2, as the program has it. When the discovery answer has records and its reported total is
  zero or absent, the total is inferred as the number of records on the discovery page. When
  that number is at most the window, the test \<^verbatim>\<open>total > window\<close> fails and the planner takes
  the rolling plan: it plans the 2000 ranges \<open>[W, 2W - 1], [2W, 3W - 1], \<dots>\<close>.
\<close>

theorem inferred_total_rolling_plan:
  assumes "node_total sn = 0" and "node_products sn \<noteq> []"
  shows "fst (discover sn) = int (length (node_products sn)) \<and>
         snd (discover sn) = node_products sn \<and>
         (int (length (node_products sn)) \<le> W \<longrightarrow>
            plan_pages (fst (discover sn)) W =
              Some (map (\<lambda>k. (W + int k * W, W + int k * W + W - 1)) [0..<2000]))"
  using assms
  by (simp add: discover_def Let_def plan_pages_small plan_rolling_closed max_safety_pages_def)

theorem inferred_total_rolling_plan_witness:
  "fst (discover ten_records) = 10 \<and>
   map_option (\<lambda>ps. ps ! 1999) (plan_pages (fst (discover ten_records)) 48) = Some (96000, 96047)"
proof -
  have a: "node_total ten_records = 0" by (simp add: node_total_def ten_records_def)
  have b: "node_products ten_records \<noteq> []" by (simp add: node_products_def ten_records_def)
  have c: "length (node_products ten_records) = 10" by (simp add: node_products_def ten_records_def)
  note r = inferred_total_rolling_plan [OF a b, of 48]
  have d: "fst (discover ten_records) = 10"
    using r [THEN conjunct1] by (simp add: c)
  have p: "plan_pages (fst (discover ten_records)) 48 =
            Some (map (\<lambda>k. (48 + int k * 48, 48 + int k * 48 + 48 - 1)) [0..<2000])"
    using r [THEN conjunct2, THEN conjunct2] by (simp add: c)
  show ?thesis unfolding p using d by simp
qed

text \<open>
  C2 as stated fails: ten records, a reported total of zero and a window of 48 give the
  inferred total 10 and a plan of 2000 ranges, not of none.
\<close>

theorem inferred_total_counterexample:
  "fst (discover ten_records) = 10 \<and>
   map_option length (plan_pages (fst (discover ten_records)) 48) = Some 2000"
proof -
  have "discover ten_records = (10, node_products ten_records)"
    by (simp add: discover_def Let_def node_total_def node_products_def ten_records_def)
  then show ?thesis
    by (simp add: plan_pages_small plan_rolling_closed max_safety_pages_def)
qed

section \<open>Properties of the aggregation\<close>

lemma truthy_set_key: "truthy (set_key v) = truthy v"
  by (cases v) simp_all

lemma same_id_truthy: "same_id p q \<Longrightarrow> truthy (get_productId q) = truthy (get_productId p)"
  by (metis same_id_def truthy_set_key)

lemma dedup_records_append:
  "dedup_records (xs @ ys) st = dedup_records ys (dedup_records xs st)"
  by (induction xs st rule: dedup_records.induct) (simp_all add: Let_def)

lemma dedup_parts_batches:
  "dedup_parts parts st = dedup_records (concat (batches_of parts)) st"
  by (induction parts st rule: dedup_parts.induct)
     (simp_all add: dedup_records_append split: file_content.splits)

lemma dedup_records_seen:
  "fst (dedup_records rs (S, w)) = S \<union> (\<lambda>p. set_key (get_productId p)) ` {p \<in> set rs. truthy (get_productId p)}"
  by (induction rs arbitrary: S w) (auto simp: Let_def)

lemma dedup_records_prefix:
  "snd (dedup_records rs (S, w)) = w @ snd (dedup_records rs (S, []))"
proof (induction rs arbitrary: S w)
  case Nil
  then show ?case by simp
next
  case (Cons r rs)
  show ?case
    using Cons.IH [of S w] Cons.IH [of "insert (set_key (get_productId r)) S" "w @ [r]"]
      Cons.IH [of "insert (set_key (get_productId r)) S" "[r]"]
    by (simp add: Let_def)
qed

lemma dedup_records_mem:
  "p \<in> set (snd (dedup_records rs (S, []))) \<longleftrightarrow>
     truthy (get_productId p) \<and> set_key (get_productId p) \<notin> S \<and> find (same_id p) rs = Some p"
proof (induction rs arbitrary: S)
  case Nil
  then show ?case by simp
next
  case (Cons r rs)
  let ?k = "set_key (get_productId r)"
  show ?case
  proof (cases "truthy (get_productId r) \<and> ?k \<notin> S")
    case True
    have "snd (dedup_records (r # rs) (S, [])) = [r] @ snd (dedup_records rs (insert ?k S, []))"
      using True dedup_records_prefix [of rs "insert ?k S" "[r]"] by (simp add: Let_def)
    then show ?thesis
      using True Cons.IH [of "insert ?k S"] by (auto simp: same_id_def)
  next
    case False
    have eq: "dedup_records (r # rs) (S, []) = dedup_records rs (S, [])"
      using False by (auto simp: Let_def)
    have "\<not> same_id p r" if "truthy (get_productId p)" "set_key (get_productId p) \<notin> S"
      using that False same_id_truthy [of p r] by (auto simp: same_id_def)
    then show ?thesis
      unfolding eq Cons.IH [of S] by auto
  qed
qed

lemma dedup_records_distinct:
  "distinct (map (\<lambda>p. set_key (get_productId p)) (snd (dedup_records rs (S, [])))) \<and>
   (\<forall>p\<in>set (snd (dedup_records rs (S, []))). set_key (get_productId p) \<notin> S)"
proof (induction rs arbitrary: S)
  case Nil
  then show ?case by simp
next
  case (Cons r rs)
  let ?k = "set_key (get_productId r)"
  show ?case
  proof (cases "truthy (get_productId r) \<and> ?k \<notin> S")
    case True
    have "snd (dedup_records (r # rs) (S, [])) = r # snd (dedup_records rs (insert ?k S, []))"
      using True dedup_records_prefix [of rs "insert ?k S" "[r]"] by (simp add: Let_def)
    then show ?thesis
      using True Cons.IH [of "insert ?k S"] by auto
  next
    case False
    have eq: "dedup_records (r # rs) (S, []) = dedup_records rs (S, [])"
      using False by (auto simp: Let_def)
    show ?thesis unfolding eq by (rule Cons.IH)
  qed
qed


lemma dedup_records_again:
  assumes "same_id p q"
  shows "dedup_records (xs @ p # ys @ q # zs) st = dedup_records (xs @ p # ys @ zs) st"
proof -
  obtain S w where st: "dedup_records (xs @ p # ys) st = (S, w)" by (cases "dedup_records (xs @ p # ys) st")
  obtain S0 w0 where st0: "dedup_records xs st = (S0, w0)" by (cases "dedup_records xs st")
  have "S = fst (dedup_records (p # ys) (S0, w0))"
    using st st0 by (simp add: dedup_records_append del: dedup_records.simps)
  then have "truthy (get_productId p) \<longrightarrow> set_key (get_productId p) \<in> S"
    unfolding dedup_records_seen by auto
  then have skip: "\<not> (truthy (get_productId q) \<and> set_key (get_productId q) \<notin> S)"
    using assms same_id_truthy [OF assms] by (auto simp: same_id_def)
  have "dedup_records (xs @ p # ys @ q # zs) st = dedup_records (q # zs) (dedup_records (xs @ p # ys) st)"
    using dedup_records_append [of "xs @ p # ys" "q # zs" st] by simp
  also have "\<dots> = dedup_records zs (S, w)"
    unfolding st using skip by (auto simp: Let_def)
  also have "\<dots> = dedup_records (xs @ p # ys @ zs) st"
    using dedup_records_append [of "xs @ p # ys" zs st] st by simp
  finally show ?thesis .
qed


lemma dup_parts_eval:
  "dedup_parts dup_parts ({}, []) =
     ({JStr ''1'', JInt 2},
      [\<lparr>productId = Some (JStr ''1''), payload = ''first''\<rparr>,
       \<lparr>productId = Some (JInt 2), payload = ''other''\<rparr>])"
  by (simp add: dup_parts_def get_productId_def Let_def insert_commute)

text \<open>
  C7, for the identifiers that Python takes for true (a string that is not empty, an integer
  that is not zero, \<^verbatim>\<open>True\<close>). Whatever parts the aggregation reads, in the order it reads
  them: the records written carry pairwise different identifiers; each record written is the
  first record read with its identifier, so that a later record with the same identifier is
  never written, whatever its payload; the first record read with a given identifier that
  counts as true is written; and an input in which an identifier comes a second time gives
  the same set of identifiers and the same output as the input without the second record.
\<close>

theorem first_writer_wins:
  "distinct (map (\<lambda>p. set_key (get_productId p)) (snd (dedup_parts parts ({}, [])))) \<and>
   (\<forall>p\<in>set (snd (dedup_parts parts ({}, []))).
      truthy (get_productId p) \<and> find (same_id p) (concat (batches_of parts)) = Some p) \<and>
   (\<forall>p\<in>set (concat (batches_of parts)). truthy (get_productId p) \<longrightarrow>
      (\<exists>q\<in>set (snd (dedup_parts parts ({}, []))). find (same_id p) (concat (batches_of parts)) = Some q)) \<and>
   (\<forall>xs ys zs p q. concat (batches_of parts) = xs @ p # ys @ q # zs \<and> same_id p q \<longrightarrow>
      dedup_parts parts ({}, []) = dedup_records (xs @ p # ys @ zs) ({}, [])) \<and>
   aggregate dir = dedup_parts (sorted_glob dir) ({}, [])"
proof (intro conjI)
  let ?rs = "concat (batches_of parts)"
  let ?out = "snd (dedup_parts parts ({}, []))"
  have out: "?out = snd (dedup_records ?rs ({}, []))" by (simp add: dedup_parts_batches)
  show "distinct (map (\<lambda>p. set_key (get_productId p)) ?out)"
    unfolding out using dedup_records_distinct [of ?rs "{}"] by blast
  show "\<forall>p\<in>set ?out. truthy (get_productId p) \<and> find (same_id p) ?rs = Some p"
  proof
    fix p assume "p \<in> set ?out"
    then show "truthy (get_productId p) \<and> find (same_id p) ?rs = Some p"
      unfolding out dedup_records_mem by simp
  qed
  show "\<forall>p\<in>set ?rs. truthy (get_productId p) \<longrightarrow> (\<exists>q\<in>set ?out. find (same_id p) ?rs = Some q)"
  proof (intro ballI impI)
    fix p assume p: "p \<in> set ?rs" "truthy (get_productId p)"
    have "same_id p p" by (simp add: same_id_def)
    with p(1) obtain q where q: "find (same_id p) ?rs = Some q"
      by (cases "find (same_id p) ?rs") (auto simp: find_None_iff)
    then have spq: "same_id p q" by (auto simp: find_Some_iff)
    have "same_id q = same_id p" using spq by (auto simp: same_id_def fun_eq_iff)
    then have "find (same_id q) ?rs = Some q" using q by simp
    moreover have "truthy (get_productId q)" using same_id_truthy [OF spq] p(2) by simp
    ultimately have "q \<in> set ?out" unfolding out dedup_records_mem by simp
    then show "\<exists>q\<in>set ?out. find (same_id p) ?rs = Some q" using q by blast
  qed
  show "\<forall>xs ys zs p q. ?rs = xs @ p # ys @ q # zs \<and> same_id p q \<longrightarrow>
          dedup_parts parts ({}, []) = dedup_records (xs @ p # ys @ zs) ({}, [])"
    by (simp add: dedup_parts_batches dedup_records_again)
  show "aggregate dir = dedup_parts (sorted_glob dir) ({}, [])" by (simp add: aggregate_def)
qed

theorem first_writer_wins_witness:
  "snd (dedup_parts dup_parts ({}, [])) =
     [\<lparr>productId = Some (JStr ''1''), payload = ''first''\<rparr>,
      \<lparr>productId = Some (JInt 2), payload = ''other''\<rparr>] \<and>
   find (same_id \<lparr>productId = Some (JStr ''1''), payload = ''second''\<rparr>) (concat (batches_of dup_parts)) =
     Some \<lparr>productId = Some (JStr ''1''), payload = ''first''\<rparr>"
proof -
  have m: "\<lparr>productId = Some (JStr ''1''), payload = ''second''\<rparr> \<in> set (concat (batches_of dup_parts))"
    by (simp add: dup_parts_def)
  have t: "truthy (get_productId \<lparr>productId = Some (JStr ''1''), payload = ''second''\<rparr>)"
    by (simp add: get_productId_def)
  from first_writer_wins [of dup_parts] m t
  obtain q where "q \<in> set (snd (dedup_parts dup_parts ({}, [])))"
    "find (same_id \<lparr>productId = Some (JStr ''1''), payload = ''second''\<rparr>) (concat (batches_of dup_parts)) = Some q"
    by blast
  then show ?thesis
    unfolding dup_parts_eval by (auto simp: dup_parts_def same_id_def get_productId_def)
qed

text \<open>
  C7 as stated, for every identifier, fails: the guard \<^verbatim>\<open>if pid and pid not in seen\<close> drops
  the first record read with the identifier 0, and the one with the empty string.
\<close>

theorem falsy_first_record_counterexample:
  "concat (batches_of zero_id_parts) =
     [\<lparr>productId = Some (JInt 0), payload = ''zero''\<rparr>,
      \<lparr>productId = Some (JStr []), payload = ''blank''\<rparr>] \<and>
   dedup_parts zero_id_parts ({}, []) = ({}, [])"
  by (simp add: zero_id_parts_def get_productId_def Let_def)

text \<open>
  C9. A record whose \<^verbatim>\<open>productId\<close> is absent, null, false, zero or the empty string is dropped
  by the aggregation: it is not written to the consolidated output and its identifier does not
  enter the set of identifiers seen, whatever the other records are.
\<close>

theorem falsy_identifier_dropped:
  "(\<forall>p\<in>set (concat (batches_of parts)). \<not> truthy (get_productId p) \<longrightarrow>
      p \<notin> set (snd (dedup_parts parts ({}, []))) \<and>
      set_key (get_productId p) \<notin> fst (dedup_parts parts ({}, []))) \<and>
   (\<not> truthy (get_productId r)) =
      (productId r \<in> {None, Some JNull, Some (JBool False), Some (JInt 0), Some (JStr [])}) \<and>
   aggregate dir = dedup_parts (sorted_glob dir) ({}, [])"
proof (intro conjI ballI impI)
  fix p assume "\<not> truthy (get_productId p)"
  then show "p \<notin> set (snd (dedup_parts parts ({}, [])))"
    by (simp add: dedup_parts_batches dedup_records_mem)
  show "set_key (get_productId p) \<notin> fst (dedup_parts parts ({}, []))"
  proof
    assume "set_key (get_productId p) \<in> fst (dedup_parts parts ({}, []))"
    then obtain q where "truthy (get_productId q)" "set_key (get_productId q) = set_key (get_productId p)"
      unfolding dedup_parts_batches dedup_records_seen by auto
    then have "truthy (get_productId p)" by (metis truthy_set_key)
    with \<open>\<not> truthy (get_productId p)\<close> show False by simp
  qed
next
  show "(\<not> truthy (get_productId r)) =
      (productId r \<in> {None, Some JNull, Some (JBool False), Some (JInt 0), Some (JStr [])})"
  proof (cases "productId r")
    case None
    then show ?thesis by (simp add: get_productId_def)
  next
    case (Some v)
    then show ?thesis by (cases v) (auto simp: get_productId_def)
  qed
  show "aggregate dir = dedup_parts (sorted_glob dir) ({}, [])" by (simp add: aggregate_def)
qed

theorem falsy_identifier_dropped_witness:
  "\<lparr>productId = None, payload = ''anonymous''\<rparr> \<notin> set (snd (dedup_parts dup_parts ({}, []))) \<and>
   JNull \<notin> fst (dedup_parts dup_parts ({}, [])) \<and>
   \<lparr>productId = Some (JStr []), payload = ''blank''\<rparr> \<notin> set (snd (dedup_parts dup_parts ({}, []))) \<and>
   JStr [] \<notin> fst (dedup_parts dup_parts ({}, []))"
proof -
  have m: "\<lparr>productId = None, payload = ''anonymous''\<rparr> \<in> set (concat (batches_of dup_parts))"
    "\<lparr>productId = Some (JStr []), payload = ''blank''\<rparr> \<in> set (concat (batches_of dup_parts))"
    by (simp_all add: dup_parts_def)
  have f: "\<not> truthy (get_productId \<lparr>productId = None, payload = ''anonymous''\<rparr>)"
    "\<not> truthy (get_productId \<lparr>productId = Some (JStr []), payload = ''blank''\<rparr>)"
    by (simp_all add: get_productId_def)
  note d = falsy_identifier_dropped [of dup_parts, THEN conjunct1, rule_format]
  from d [OF m(1) f(1)] d [OF m(2) f(2)] show ?thesis
    by (simp add: get_productId_def)
qed

section \<open>Properties of the run\<close>

lemma worker_finish_error:
  "worker_finish pg res dir = Inl e \<longleftrightarrow> task_error res = Some e"
  by (auto simp: worker_finish_def task_error_def Let_def split: sum.splits prod.splits gql_data.splits)

lemma worker_finish_ok:
  "task_error res = None \<Longrightarrow>
   worker_finish pg res dir =
     Inr (length (node_products (case snd (projr res) of DataObj node \<Rightarrow> node)),
          write_text (page_name (fst pg) (snd pg))
            (JsonArray (node_products (case snd (projr res) of DataObj node \<Rightarrow> node))) dir)"
  by (auto simp: worker_finish_def task_error_def Let_def split: sum.splits prod.splits gql_data.splits)

lemma gather_all_ok:
  "\<forall>t\<in>set tasks. task_error (snd t) = None \<Longrightarrow> \<exists>st'. gather tasks st = Inr st'"
proof (induction tasks arbitrary: st)
  case Nil
  then show ?case by simp
next
  case (Cons t tasks)
  obtain pg res where t: "t = (pg, res)" by (cases t)
  obtain td dir where st: "st = (td, dir)" by (cases st)
  have "task_error res = None" using Cons.prems t by simp
  from worker_finish_ok [OF this, of pg dir] obtain got dir' where "worker_finish pg res dir = Inr (got, dir')"
    by blast
  then show ?case using Cons t st by simp
qed


lemma set_as_completed: "set (as_completed rank tasks) = set tasks"
  by (simp add: as_completed_def)





lemma crawl_after_planning:
  assumes "proxy_list \<noteq> []"
    and "fst (graphql_post_json net (jit (0, window - 1)) (0, window - 1)
                 (fst (next_proxy (ProxyRotator proxy_list))) 4) = Inr (DataObj node)"
    and "discover node = (tot, products_first)"
    and "plan_pages tot window = Some pages"
  shows "crawl_all_products ts base_out proxy_list window net jit rank =
     (case gather (as_completed rank (start_workers (snd (next_proxy (ProxyRotator proxy_list))) net jit pages))
             (length products_first, write_text (page_name 0 (window - 1)) (JsonArray products_first) [])
      of Inl e \<Rightarrow> Raised e
       | Inr (downloaded, dir) \<Rightarrow>
           Completed
             \<lparr>artifacts = dir,
              consolidated = snd (aggregate dir),
              run_manifest =
                \<lparr>timestamp_utc = ts, pages_written = length dir,
                 unique_products = card (fst (aggregate dir)),
                 jsonl = base_out @ ''/products_all.jsonl''\<rparr>,
              estimated_total = tot,
              seen_ids = fst (aggregate dir),
              total_downloaded = downloaded\<rparr>)"
  unfolding crawl_all_products_def using assms
  by (simp add: split_beta split: sum.splits)




section \<open>Properties of the file names\<close>

lemma of_char_digit: "d < 10 \<Longrightarrow> of_char (digit d) = (48 + d :: nat)"
proof -
  assume "d < 10"
  then have "d \<in> {0, 1, 2, 3, 4, 5, 6, 7, 8, 9}" by auto
  then show ?thesis by (auto simp: digit_def)
qed

lemma dv_digit: "d < 10 \<Longrightarrow> dv (digit d) = d"
  by (simp add: dv_def of_char_digit)

lemma digit_less: "d < 10 \<Longrightarrow> e < 10 \<Longrightarrow> (digit d < digit e) = (d < e)"
  by (simp add: less_char_def of_char_digit)

lemma digits_value_snoc: "digits_value (s @ [c]) = 10 * digits_value s + dv c"
  by (simp add: digits_value_def)

lemma digits_value_decimal: "digits_value (decimal k) = k"
proof (induction k rule: decimal.induct)
  case (1 k)
  show ?case
  proof (cases "k < 10")
    case True
    then show ?thesis by (subst decimal.simps) (simp add: digits_value_def dv_digit)
  next
    case False
    have "digits_value (decimal k) = 10 * digits_value (decimal (k div 10)) + dv (digit (k mod 10))"
      using False by (subst decimal.simps) (simp add: digits_value_snoc)
    then show ?thesis using 1 False by (simp add: dv_digit)
  qed
qed

lemma is_digits_decimal: "is_digits (decimal k)"
proof (induction k rule: decimal.induct)
  case (1 k)
  show ?case
  proof (cases "k < 10")
    case True
    then show ?thesis by (subst decimal.simps) (auto simp: is_digits_def)
  next
    case False
    have "\<exists>d<10. digit (k mod 10) = digit d"
      by (rule exI [of _ "k mod 10"]) simp
    then show ?thesis using 1 False
      by (subst decimal.simps) (auto simp: is_digits_def)
  qed
qed

lemma length_decimal: "0 < m \<Longrightarrow> k < 10 ^ m \<Longrightarrow> length (decimal k) \<le> m"
proof (induction k arbitrary: m rule: decimal.induct)
  case (1 k)
  show ?case
  proof (cases "k < 10")
    case True
    then show ?thesis using 1(2) by (subst decimal.simps) simp
  next
    case False
    obtain m' where m: "m = Suc m'" using 1(2) by (cases m) auto
    have "m' \<noteq> 0" using False 1(3) m by (cases m') auto
    moreover have "k div 10 < 10 ^ m'" using 1(3) m by (simp add: less_mult_imp_div_less)
    ultimately have "length (decimal (k div 10)) \<le> m'" using 1(1) [OF False, of m'] by simp
    then show ?thesis using False m by (subst decimal.simps) simp
  qed
qed

lemma decimal_nonempty: "decimal k \<noteq> []"
  by (subst decimal.simps) simp

lemma digit_zero: "digit 0 = CHR ''0''"
  by (simp add: digit_def)

lemma is_digits_zfill: "is_digits (zfill w (decimal k))"
  using is_digits_decimal [of k] digit_zero unfolding is_digits_def zfill_def
  by (auto intro: exI [of _ 0])

lemma digits_value_zeros: "foldl (\<lambda>a c. 10 * a + dv c) 0 (replicate m (CHR ''0'')) = 0"
  by (induction m) (simp_all add: dv_def)

lemma digits_value_zfill: "digits_value (zfill w s) = digits_value s"
  by (simp add: zfill_def digits_value_def digits_value_zeros)

lemma length_zfill: "length s \<le> w \<Longrightarrow> length (zfill w s) = w"
  by (simp add: zfill_def)

lemma digit_not_special: "d < 10 \<Longrightarrow> digit d \<noteq> CHR ''-'' \<and> digit d \<noteq> CHR ''_''"
proof -
  assume "d < 10"
  then have "d \<in> {0, 1, 2, 3, 4, 5, 6, 7, 8, 9}" by auto
  then show ?thesis by (auto simp: digit_def)
qed

lemma is_digits_not_special: "is_digits s \<Longrightarrow> CHR ''-'' \<notin> set s \<and> CHR ''_'' \<notin> set s"
  unfolding is_digits_def using digit_not_special by metis

lemma zfill_decimal_inj: "zfill w (decimal j) = zfill w' (decimal k) \<Longrightarrow> j = k"
  using digits_value_zfill [of w "decimal j"] digits_value_zfill [of w' "decimal k"]
  by (simp add: digits_value_decimal)

lemma fmt08d_inj: "fmt08d i = fmt08d j \<Longrightarrow> i = j"
proof -
  assume eq: "fmt08d i = fmt08d j"
  have pos: "CHR ''-'' \<notin> set (zfill 8 (decimal k))" for k
    using is_digits_not_special [OF is_digits_zfill] by blast
  show ?thesis
  proof (cases "i < 0")
    case True
    show ?thesis
    proof (cases "j < 0")
      case j: True
      have "nat (- i) = nat (- j)"
        using eq True j by (auto simp: fmt08d_def dest: zfill_decimal_inj)
      then show ?thesis using True j by simp
    next
      case False
      have "CHR ''-'' \<in> set (fmt08d i)" using True by (simp add: fmt08d_def)
      then show ?thesis using False eq pos [of "nat j"] by (simp add: fmt08d_def)
    qed
  next
    case False
    show ?thesis
    proof (cases "j < 0")
      case True
      have "CHR ''-'' \<in> set (fmt08d j)" using True by (simp add: fmt08d_def)
      then show ?thesis using False eq pos [of "nat i"] by (simp add: fmt08d_def)
    next
      case j: False
      have "nat i = nat j"
        using eq False j by (auto simp: fmt08d_def dest: zfill_decimal_inj)
      then show ?thesis using False j by simp
    qed
  qed
qed

lemma fmt08d_no_underscore: "CHR ''_'' \<notin> set (fmt08d i)"
  using is_digits_not_special [OF is_digits_zfill]
  by (auto simp: fmt08d_def)

lemma split_at_first:
  "c \<notin> set xs \<Longrightarrow> c \<notin> set ys \<Longrightarrow> xs @ c # xs' = ys @ c # ys' \<Longrightarrow> xs = ys \<and> xs' = ys'"
proof (induction xs arbitrary: ys)
  case Nil
  then show ?case by (cases ys) auto
next
  case (Cons x xs)
  then show ?case by (cases ys) auto
qed

lemma page_name_inj: "page_name f t = page_name f' t' \<Longrightarrow> f = f' \<and> t = t'"
proof -
  assume "page_name f t = page_name f' t'"
  then have e: "fmt08d f @ CHR ''_'' # (fmt08d t @ ''.json'') = fmt08d f' @ CHR ''_'' # (fmt08d t' @ ''.json'')"
    by (simp add: page_name_def)
  have "fmt08d f = fmt08d f' \<and> fmt08d t @ ''.json'' = fmt08d t' @ ''.json''"
    by (rule split_at_first [OF fmt08d_no_underscore fmt08d_no_underscore e])
  then show ?thesis using fmt08d_inj by auto
qed

lemma page_name_not_jsonl: "page_name f t \<noteq> ''products_all.jsonl''"
proof
  assume "page_name f t = ''products_all.jsonl''"
  then have "last (page_name f t) = last ''products_all.jsonl''" by simp
  then show False by (simp add: page_name_def)
qed

section \<open>Properties of the manifest\<close>





lemma start_workers_ranges: "map fst (start_workers rot net jit pages) = pages"
  by (induction pages arbitrary: rot) (simp_all split: prod.splits)

lemma worker_finish_names:
  assumes "worker_finish pg res dir = Inr (got, dir')"
  shows "fst ` set dir' = insert (page_name (fst pg) (snd pg)) (fst ` set dir) \<and>
         (distinct (map fst dir) \<longrightarrow> distinct (map fst dir'))"
proof -
  have "task_error res = None"
    using assms worker_finish_error [of pg res dir] by (cases "task_error res") auto
  from worker_finish_ok [OF this, of pg dir] assms obtain c where
    "dir' = write_text (page_name (fst pg) (snd pg)) c dir" by auto
  then show ?thesis
    by (simp add: write_text_def AList.dom_update AList.distinct_update)
qed

lemma gather_names:
  assumes "gather tasks (k, dir) = Inr (k', dir')"
  shows "fst ` set dir' = fst ` set dir \<union> (\<lambda>t. page_name (fst (fst t)) (snd (fst t))) ` set tasks \<and>
         (distinct (map fst dir) \<longrightarrow> distinct (map fst dir'))"
  using assms
proof (induction tasks arbitrary: k dir)
  case Nil
  then show ?case by simp
next
  case (Cons t tasks)
  obtain pg res where t: "t = (pg, res)" by (cases t)
  from Cons.prems t obtain got dir1 where
    w: "worker_finish pg res dir = Inr (got, dir1)" and
    g: "gather tasks (k + got, dir1) = Inr (k', dir')"
    by (auto split: sum.splits)
  from worker_finish_names [OF w] Cons.IH [OF g] show ?case
    using t by auto
qed

lemma crawl_completed:
  assumes "crawl_all_products ts base_out proxy_list window net jit rank = Completed r"
  shows "\<exists>node pages.
           fst (graphql_post_json net (jit (0, window - 1)) (0, window - 1)
                  (fst (next_proxy (ProxyRotator proxy_list))) 4) = Inr (DataObj node) \<and>
           plan_pages (fst (discover node)) window = Some pages \<and>
           gather (as_completed rank (start_workers (snd (next_proxy (ProxyRotator proxy_list))) net jit pages))
             (length (snd (discover node)),
              write_text (page_name 0 (window - 1)) (JsonArray (snd (discover node))) []) =
             Inr (total_downloaded r, artifacts r) \<and>
           consolidated r = snd (aggregate (artifacts r)) \<and>
           seen_ids r = fst (aggregate (artifacts r)) \<and>
           run_manifest r =
             \<lparr>timestamp_utc = ts, pages_written = length (artifacts r),
              unique_products = card (fst (aggregate (artifacts r))),
              jsonl = base_out @ ''/products_all.jsonl''\<rparr>"
proof -
  have ne: "proxy_list \<noteq> []"
    using assms by (auto simp: crawl_all_products_def)
  obtain node where disc: "fst (graphql_post_json net (jit (0, window - 1)) (0, window - 1)
                  (fst (next_proxy (ProxyRotator proxy_list))) 4) = Inr (DataObj node)"
    using assms ne unfolding crawl_all_products_def
    by (auto simp: split_beta split: sum.splits gql_data.splits)
  obtain tot products_first where d: "discover node = (tot, products_first)" by (cases "discover node")
  obtain pages where plan: "plan_pages tot window = Some pages"
    using assms ne disc d unfolding crawl_all_products_def
    by (auto simp: split_beta split: option.splits)
  have c: "(case gather (as_completed rank (start_workers (snd (next_proxy (ProxyRotator proxy_list))) net jit pages))
             (length products_first, write_text (page_name 0 (window - 1)) (JsonArray products_first) [])
      of Inl e \<Rightarrow> Raised e
       | Inr (downloaded, dir) \<Rightarrow>
           Completed
             \<lparr>artifacts = dir,
              consolidated = snd (aggregate dir),
              run_manifest =
                \<lparr>timestamp_utc = ts, pages_written = length dir,
                 unique_products = card (fst (aggregate dir)),
                 jsonl = base_out @ ''/products_all.jsonl''\<rparr>,
              estimated_total = tot,
              seen_ids = fst (aggregate dir),
              total_downloaded = downloaded\<rparr>) = Completed r"
    using crawl_after_planning [where jit = jit and window = window and net = net
        and proxy_list = proxy_list and ts = ts and base_out = base_out and rank = rank,
        OF ne disc d plan] assms by simp
  show ?thesis
  proof (intro exI [of _ node] exI [of _ pages] conjI)
    show "fst (graphql_post_json net (jit (0, window - 1)) (0, window - 1)
                  (fst (next_proxy (ProxyRotator proxy_list))) 4) = Inr (DataObj node)"
      by (rule disc)
    show "plan_pages (fst (discover node)) window = Some pages"
      using plan d by simp
    show "gather (as_completed rank (start_workers (snd (next_proxy (ProxyRotator proxy_list))) net jit pages))
             (length (snd (discover node)),
              write_text (page_name 0 (window - 1)) (JsonArray (snd (discover node))) []) =
             Inr (total_downloaded r, artifacts r)"
      using c d by (auto split: sum.splits)
    show "consolidated r = snd (aggregate (artifacts r))"
      using c by (auto split: sum.splits)
    show "seen_ids r = fst (aggregate (artifacts r))"
      using c by (auto split: sum.splits)
    show "run_manifest r =
             \<lparr>timestamp_utc = ts, pages_written = length (artifacts r),
              unique_products = card (fst (aggregate (artifacts r))),
              jsonl = base_out @ ''/products_all.jsonl''\<rparr>"
      using c by (auto split: sum.splits)
  qed
qed


lemma artifacts_names:
  assumes "gather (as_completed rank (start_workers rot net jit pages))
             (k, write_text (page_name 0 (window - 1)) c []) = Inr (k', dir)"
  shows "fst ` set dir = (\<lambda>pg. page_name (fst pg) (snd pg)) ` insert (0, window - 1) (set pages) \<and>
         distinct (map fst dir)"
proof -
  have "fst ` set (start_workers rot net jit pages) = set pages"
    unfolding set_map [symmetric] start_workers_ranges ..
  then have "(\<lambda>t. page_name (fst (fst t)) (snd (fst t))) ` set (as_completed rank (start_workers rot net jit pages)) =
        (\<lambda>pg. page_name (fst pg) (snd pg)) ` set pages"
    unfolding set_as_completed by force
  then show ?thesis
    using gather_names [OF assms] by (simp add: write_text_def)
qed










section \<open>Properties of the consolidated output\<close>

lemma less_same_prefix: "(zs @ xs < zs @ ys) = (xs < (ys :: 'a :: linorder list))"
  by (induction zs) simp_all

lemma less_append_same_length:
  "length xs = length ys \<Longrightarrow> xs < ys \<Longrightarrow> xs @ us < ys @ (vs :: 'a :: linorder list)"
  by (induction xs ys rule: list_induct2) auto

lemma less_snoc_same_length:
  "length xs = length ys \<Longrightarrow> (xs @ [a] < ys @ [b]) = (xs < ys \<or> xs = ys \<and> a < (b :: 'a :: linorder))"
  by (induction xs ys rule: list_induct2) auto

lemma digit_pair_less:
  "d < 10 \<Longrightarrow> e < 10 \<Longrightarrow> (10 * x + d < 10 * y + e) = (x < y \<or> x = y \<and> d < (e :: nat))"
  by (cases x y rule: linorder_cases) auto

lemma digit_pair_eq:
  "d < 10 \<Longrightarrow> e < 10 \<Longrightarrow> (10 * x + d = 10 * y + e) = (x = y \<and> d = (e :: nat))"
  by (cases x y rule: linorder_cases) auto

lemma digits_order:
  "length xs = m \<Longrightarrow> length ys = m \<Longrightarrow> is_digits xs \<Longrightarrow> is_digits ys \<Longrightarrow>
   ((xs < ys) = (digits_value xs < digits_value ys)) \<and> ((xs = ys) = (digits_value xs = digits_value ys))"
proof (induction m arbitrary: xs ys)
  case 0
  then show ?case by simp
next
  case (Suc m)
  from Suc.prems(1) obtain a xs' where xs: "xs = xs' @ [a]" "length xs' = m"
    by (auto simp: length_Suc_conv_rev)
  from Suc.prems(2) obtain b ys' where ys: "ys = ys' @ [b]" "length ys' = m"
    by (auto simp: length_Suc_conv_rev)
  have dx: "is_digits xs'" and dy: "is_digits ys'"
    using Suc.prems(3,4) xs ys by (auto simp: is_digits_def)
  obtain d where d: "d < 10" "a = digit d"
    using Suc.prems(3) xs by (auto simp: is_digits_def)
  obtain e where e: "e < 10" "b = digit e"
    using Suc.prems(4) ys by (auto simp: is_digits_def)
  note IH = Suc.IH [OF xs(2) ys(2) dx dy]
  have ab: "(a < b) = (d < e)" using d e by (simp add: digit_less)
  have ab': "(a = b) = (d = e)" using d e dv_digit by metis
  have vx: "digits_value xs = 10 * digits_value xs' + d"
    using xs d by (simp add: digits_value_snoc dv_digit)
  have vy: "digits_value ys = 10 * digits_value ys' + e"
    using ys e by (simp add: digits_value_snoc dv_digit)
  have l: "(xs < ys) = (xs' < ys' \<or> xs' = ys' \<and> a < b)"
    unfolding xs(1) ys(1) using xs(2) ys(2) by (simp add: less_snoc_same_length)
  have "(digits_value xs < digits_value ys) =
        (digits_value xs' < digits_value ys' \<or> digits_value xs' = digits_value ys' \<and> d < e)"
    unfolding vx vy using d(1) e(1) by (rule digit_pair_less)
  moreover have "(digits_value xs = digits_value ys) = (digits_value xs' = digits_value ys' \<and> d = e)"
    unfolding vx vy using d(1) e(1) by (rule digit_pair_eq)
  moreover have "(xs = ys) = (xs' = ys' \<and> a = b)" unfolding xs(1) ys(1) by simp
  ultimately show ?case using l IH ab ab' by simp
qed

lemma fmt08d_digits:
  assumes "0 \<le> i" and "i < 100000000"
  shows "length (fmt08d i) = 8 \<and> is_digits (fmt08d i) \<and> digits_value (fmt08d i) = nat i"
proof -
  have "nat i < 10 ^ 8" using assms by simp
  then have "length (decimal (nat i)) \<le> 8" by (intro length_decimal) simp_all
  then have "length (zfill 8 (decimal (nat i))) = 8" by (rule length_zfill)
  then show ?thesis
    using assms is_digits_zfill [of 8 "nat i"]
    by (simp add: fmt08d_def digits_value_zfill digits_value_decimal)
qed

lemma fmt08d_less:
  assumes "0 \<le> i" and "i < j" and "j < 100000000"
  shows "fmt08d i < fmt08d j"
proof -
  have i: "length (fmt08d i) = 8 \<and> is_digits (fmt08d i) \<and> digits_value (fmt08d i) = nat i"
    using assms by (intro fmt08d_digits) simp_all
  have j: "length (fmt08d j) = 8 \<and> is_digits (fmt08d j) \<and> digits_value (fmt08d j) = nat j"
    using assms by (intro fmt08d_digits) simp_all
  have "digits_value (fmt08d i) < digits_value (fmt08d j)" using i j assms by simp
  then show ?thesis
    using digits_order [of "fmt08d i" 8 "fmt08d j"] i j by simp
qed

lemma page_name_less:
  assumes "0 \<le> f" and "f < f'" and "f' < 100000000"
  shows "page_name f t < page_name f' t'"
proof -
  have l: "length (fmt08d f) = length (fmt08d f')"
    using fmt08d_digits [of f] fmt08d_digits [of f'] assms by simp
  have "fmt08d f @ (''_'' @ fmt08d t @ ''.json'') < fmt08d f' @ (''_'' @ fmt08d t' @ ''.json'')"
    by (rule less_append_same_length [OF l fmt08d_less [OF assms]])
  then show ?thesis unfolding page_name_def less_same_prefix .
qed

lemma sorted_by_key_unique:
  fixes f :: "'a \<Rightarrow> 'b :: linorder"
  assumes "sorted (map f xs)" and "distinct (map f xs)"
    and "sorted (map f ys)" and "distinct (map f ys)" and "set xs = set ys"
  shows "xs = ys"
proof -
  have "set (map f xs) = set (map f ys)" using assms(5) by simp
  with assms(1-4) have m: "map f xs = map f ys" by (intro sorted_distinct_set_unique)
  have "inj_on f (set xs \<union> set ys)" using assms(2,5) by (simp add: distinct_map)
  then show ?thesis using m by (simp add: inj_on_map_eq_map)
qed

lemma sort_key_distinct_keys:
  "distinct (map f xs) \<Longrightarrow> distinct (map f (sort_key f xs))"
  by (simp add: distinct_map)

lemma sorted_glob_set:
  assumes "distinct (map fst d1)" and "distinct (map fst d2)" and "set d1 = set d2"
  shows "sorted_glob d1 = sorted_glob d2"
  unfolding sorted_glob_def
proof (rule sorted_by_key_unique [where f = fst])
  show "sorted (map fst (sort_key fst d1))" by simp
  show "sorted (map fst (sort_key fst d2))" by simp
  show "distinct (map fst (sort_key fst d1))" by (rule sort_key_distinct_keys [OF assms(1)])
  show "distinct (map fst (sort_key fst d2))" by (rule sort_key_distinct_keys [OF assms(2)])
  show "set (sort_key fst d1) = set (sort_key fst d2)" using assms(3) by simp
qed

lemma artifacts_distinct:
  assumes "crawl_all_products ts base_out proxy_list window net jit rank = Completed r"
  shows "distinct (map fst (artifacts r))"
proof -
  from crawl_completed [OF assms] obtain node pages where
    "gather (as_completed rank (start_workers (snd (next_proxy (ProxyRotator proxy_list))) net jit pages))
             (length (snd (discover node)),
              write_text (page_name 0 (window - 1)) (JsonArray (snd (discover node))) []) =
             Inr (total_downloaded r, artifacts r)"
    by blast
  from artifacts_names [OF this] show ?thesis by simp
qed

lemma sorted_glob_pages:
  assumes d: "distinct (map fst rs)"
    and b: "\<forall>r\<in>set rs. 0 \<le> fst r \<and> fst r < 100000000"
  shows "sorted_glob (map (\<lambda>r. (page_name (fst r) (snd r), c r)) rs) =
         map (\<lambda>r. (page_name (fst r) (snd r), c r)) (sort_key fst (rs :: (int \<times> int) list))"
proof -
  let ?name = "\<lambda>r :: int \<times> int. page_name (fst r) (snd r)"
  let ?g = "\<lambda>r. (?name r, c r)"
  let ?ys = "sort_key fst rs"
  have inj: "inj_on ?name (set rs)"
  proof (rule inj_onI)
    fix x y assume "x \<in> set rs" "y \<in> set rs" "?name x = ?name y"
    then show "x = y" using page_name_inj [of "fst x" "snd x" "fst y" "snd y"] by (simp add: prod_eq_iff)
  qed
  have drs: "distinct rs" using d by (simp add: distinct_map)
  have dn: "distinct (map ?name rs)" using drs inj by (simp add: distinct_map)
  have "sorted (map fst ?ys)" by simp
  moreover have "distinct (map fst ?ys)" by (rule sort_key_distinct_keys [OF d])
  ultimately have "sorted_wrt (<) (map fst ?ys)" by (simp add: strict_sorted_iff)
  then have "sorted_wrt (\<lambda>x y. fst x < fst y) ?ys" by (simp add: sorted_wrt_map)
  then have "sorted_wrt (\<lambda>x y. ?name x < ?name y) ?ys"
  proof (rule sorted_wrt_mono_rel [rotated])
    fix x y assume "x \<in> set ?ys" "y \<in> set ?ys" "fst x < fst y"
    then show "?name x < ?name y" using b by (intro page_name_less) auto
  qed
  then have "sorted_wrt (<) (map ?name ?ys)" by (simp add: sorted_wrt_map)
  then have s: "sorted (map ?name ?ys)" and dy: "distinct (map ?name ?ys)"
    by (simp_all add: strict_sorted_iff)
  have m: "map fst (map ?g xs) = map ?name xs" for xs by simp
  show ?thesis
    unfolding sorted_glob_def
  proof (rule sorted_by_key_unique [where f = fst])
    show "sorted (map fst (sort_key fst (map ?g rs)))" by simp
    show "distinct (map fst (sort_key fst (map ?g rs)))"
      by (rule sort_key_distinct_keys) (simp only: m dn)
    show "sorted (map fst (map ?g ?ys))" by (simp only: m s)
    show "distinct (map fst (map ?g ?ys))" by (simp only: m dy)
    show "set (sort_key fst (map ?g rs)) = set (map ?g ?ys)" by simp
  qed
qed

lemma batches_of_pages:
  "batches_of (map (\<lambda>r. (page_name (fst r) (snd r), JsonArray (arr r))) ys) = map arr ys"
  by (induction ys) (simp_all add: page_name_not_jsonl)

lemma aggregate_pages:
  assumes d: "distinct (map fst rs)"
    and b: "\<forall>r\<in>set rs. 0 \<le> fst r \<and> fst r < 100000000"
  shows "aggregate (map (\<lambda>r. (page_name (fst r) (snd r), JsonArray (arr r))) rs) =
         dedup_records (concat (map arr (sort_key fst rs))) ({}, [])"
  unfolding aggregate_def sorted_glob_pages [OF d b] dedup_parts_batches batches_of_pages ..

text \<open>
  C10, for ranges that start in \<open>[0, 100 000 000)\<close>. The consolidated output depends on the
  set of page files only: two directories that hold the same files give the same output, and
  so do two completed runs that leave the same files, in whatever order their ranges
  completed. The files are read in the order of their names. For files of ranges with
  different starts, all in \<open>[0, 100 000 000)\<close>, where the format \<^verbatim>\<open>08d\<close> writes exactly eight
  digits, that order is the ascending order of the range starts: the output is the
  deduplication of the arrays taken in that order, and the record written for an identifier
  is the first with it in that order, the one of the range with the lowest start.
\<close>

theorem consolidated_deterministic:
  "(distinct (map fst d1) \<and> distinct (map fst d2) \<and> set d1 = set d2 \<longrightarrow> aggregate d1 = aggregate d2) \<and>
   (crawl_all_products ts1 out1 proxy_list1 window1 net1 jit1 rank1 = Completed r1 \<and>
    crawl_all_products ts2 out2 proxy_list2 window2 net2 jit2 rank2 = Completed r2 \<and>
    set (artifacts r1) = set (artifacts r2) \<longrightarrow> consolidated r1 = consolidated r2) \<and>
   (distinct (map fst rs) \<and> (\<forall>r\<in>set rs. 0 \<le> fst r \<and> fst r < 100000000) \<longrightarrow>
      sorted_glob (map (\<lambda>r. (page_name (fst r) (snd r), JsonArray (arr r))) rs) =
        map (\<lambda>r. (page_name (fst r) (snd r), JsonArray (arr r))) (sort_key fst rs) \<and>
      snd (aggregate (map (\<lambda>r. (page_name (fst r) (snd r), JsonArray (arr r))) rs)) =
        snd (dedup_records (concat (map arr (sort_key fst rs))) ({}, [])) \<and>
      (\<forall>p\<in>set (snd (aggregate (map (\<lambda>r. (page_name (fst r) (snd r), JsonArray (arr r))) rs))).
         find (same_id p) (concat (map arr (sort_key fst rs))) = Some p))"
proof (intro conjI impI)
  assume "distinct (map fst d1) \<and> distinct (map fst d2) \<and> set d1 = set d2"
  then have "sorted_glob d1 = sorted_glob d2" by (intro sorted_glob_set) simp_all
  then show "aggregate d1 = aggregate d2" by (simp add: aggregate_def)
next
  assume a: "crawl_all_products ts1 out1 proxy_list1 window1 net1 jit1 rank1 = Completed r1 \<and>
    crawl_all_products ts2 out2 proxy_list2 window2 net2 jit2 rank2 = Completed r2 \<and>
    set (artifacts r1) = set (artifacts r2)"
  have c1: "consolidated r1 = snd (aggregate (artifacts r1))"
    using crawl_completed [OF a [THEN conjunct1]] by blast
  have c2: "consolidated r2 = snd (aggregate (artifacts r2))"
    using crawl_completed [OF a [THEN conjunct2, THEN conjunct1]] by blast
  have "sorted_glob (artifacts r1) = sorted_glob (artifacts r2)"
    using artifacts_distinct [OF a [THEN conjunct1]] artifacts_distinct [OF a [THEN conjunct2, THEN conjunct1]]
      a [THEN conjunct2, THEN conjunct2]
    by (rule sorted_glob_set)
  then show "consolidated r1 = consolidated r2" unfolding c1 c2 by (simp add: aggregate_def)
next
  assume a: "distinct (map fst rs) \<and> (\<forall>r\<in>set rs. 0 \<le> fst r \<and> fst r < 100000000)"
  show "sorted_glob (map (\<lambda>r. (page_name (fst r) (snd r), JsonArray (arr r))) rs) =
        map (\<lambda>r. (page_name (fst r) (snd r), JsonArray (arr r))) (sort_key fst rs)"
    by (rule sorted_glob_pages [OF a [THEN conjunct1] a [THEN conjunct2]])
next
  assume a: "distinct (map fst rs) \<and> (\<forall>r\<in>set rs. 0 \<le> fst r \<and> fst r < 100000000)"
  show "snd (aggregate (map (\<lambda>r. (page_name (fst r) (snd r), JsonArray (arr r))) rs)) =
        snd (dedup_records (concat (map arr (sort_key fst rs))) ({}, []))"
    unfolding aggregate_pages [OF a [THEN conjunct1] a [THEN conjunct2]] ..
next
  assume a: "distinct (map fst rs) \<and> (\<forall>r\<in>set rs. 0 \<le> fst r \<and> fst r < 100000000)"
  show "\<forall>p\<in>set (snd (aggregate (map (\<lambda>r. (page_name (fst r) (snd r), JsonArray (arr r))) rs))).
         find (same_id p) (concat (map arr (sort_key fst rs))) = Some p"
    unfolding aggregate_pages [OF a [THEN conjunct1] a [THEN conjunct2]]
  proof
    fix p assume "p \<in> set (snd (dedup_records (concat (map arr (sort_key fst rs))) ({}, [])))"
    then show "find (same_id p) (concat (map arr (sort_key fst rs))) = Some p"
      unfolding dedup_records_mem by simp
  qed
qed

lemma wide_plan: "plan_pages 150000000 50000000 = Some [(50000000, 99999999), (100000000, 149999999)]"
  by (simp add: plan_pages_def plan_known.simps)

lemma replicate_7: "replicate 7 c = [c, c, c, c, c, c, c]"
  by (simp add: numeral_eq_Suc)

lemma wide_names:
  "page_name 0 49999999 = ''products_00000000_49999999.json''"
  "page_name 50000000 99999999 = ''products_50000000_99999999.json''"
  "page_name 100000000 149999999 = ''products_100000000_149999999.json''"
  by (simp_all add: page_name_def fmt08d_def zfill_def decimal.simps digit_def replicate_7)

lemma wide_discovery:
  "fst (graphql_post_json wide_net (no_jitter (0, 50000000 - 1)) (0, 50000000 - 1)
         (fst (next_proxy (ProxyRotator [''p0'']))) 4) =
   Inr (DataObj (Some \<lparr>recordsFiltered = Some 150000000, products = Some []\<rparr>))"
  by (simp add: graphql_post_json_def wide_net_def upto_1_4)

lemma wide_discover:
  "discover (Some \<lparr>recordsFiltered = Some 150000000, products = Some []\<rparr>) = (150000000, [])"
  by (simp add: discover_def node_total_def node_products_def)

lemma wide_tasks:
  "start_workers (snd (next_proxy (ProxyRotator [''p0'']))) wide_net no_jitter
     [(50000000, 99999999), (100000000, 149999999)] =
   [((50000000, 99999999),
       Inr (50000000, DataObj (Some \<lparr>recordsFiltered = Some 150000000,
              products = Some [\<lparr>productId = Some (JStr ''a''), payload = ''low''\<rparr>]\<rparr>))),
    ((100000000, 149999999),
       Inr (100000000, DataObj (Some \<lparr>recordsFiltered = Some 150000000,
              products = Some [\<lparr>productId = Some (JStr ''a''), payload = ''high''\<rparr>]\<rparr>)))]"
  by (simp add: fetch_page_def graphql_post_json_def wide_net_def upto_1_4 next_proxy_def
      ProxyRotator_def)

lemma wide_sorted:
  "sorted_glob
     [(''products_00000000_49999999.json'', JsonArray []),
      (''products_50000000_99999999.json'', JsonArray [\<lparr>productId = Some (JStr ''a''), payload = ''low''\<rparr>]),
      (''products_100000000_149999999.json'', JsonArray [\<lparr>productId = Some (JStr ''a''), payload = ''high''\<rparr>])] =
     [(''products_00000000_49999999.json'', JsonArray []),
      (''products_100000000_149999999.json'', JsonArray [\<lparr>productId = Some (JStr ''a''), payload = ''high''\<rparr>]),
      (''products_50000000_99999999.json'', JsonArray [\<lparr>productId = Some (JStr ''a''), payload = ''low''\<rparr>])]"
  by (simp add: sorted_glob_def)

lemma wide_sorted_other:
  "sorted_glob
     [(''products_00000000_49999999.json'', JsonArray []),
      (''products_100000000_149999999.json'', JsonArray [\<lparr>productId = Some (JStr ''a''), payload = ''high''\<rparr>]),
      (''products_50000000_99999999.json'', JsonArray [\<lparr>productId = Some (JStr ''a''), payload = ''low''\<rparr>])] =
     [(''products_00000000_49999999.json'', JsonArray []),
      (''products_100000000_149999999.json'', JsonArray [\<lparr>productId = Some (JStr ''a''), payload = ''high''\<rparr>]),
      (''products_50000000_99999999.json'', JsonArray [\<lparr>productId = Some (JStr ''a''), payload = ''low''\<rparr>])]"
  by (simp add: sorted_glob_def)

lemma wide_run:
  "crawl_all_products ''2026-01-01T00-00-00Z'' ''scrapes/scrape_2026-01-01T00-00-00Z'' [''p0''] 50000000
     wide_net no_jitter plan_order =
   Completed
     \<lparr>artifacts =
        [(''products_00000000_49999999.json'', JsonArray []),
         (''products_50000000_99999999.json'', JsonArray [\<lparr>productId = Some (JStr ''a''), payload = ''low''\<rparr>]),
         (''products_100000000_149999999.json'', JsonArray [\<lparr>productId = Some (JStr ''a''), payload = ''high''\<rparr>])],
      consolidated = [\<lparr>productId = Some (JStr ''a''), payload = ''high''\<rparr>],
      run_manifest =
        \<lparr>timestamp_utc = ''2026-01-01T00-00-00Z'', pages_written = 3, unique_products = 1,
         jsonl = ''scrapes/scrape_2026-01-01T00-00-00Z/products_all.jsonl''\<rparr>,
      estimated_total = 150000000,
      seen_ids = {JStr ''a''},
      total_downloaded = 2\<rparr>"
proof -
  have ne: "[''p0''] \<noteq> ([] :: string list)" by simp
  show ?thesis
    unfolding crawl_after_planning [where jit = no_jitter and window = 50000000 and net = wide_net
        and proxy_list = "[''p0'']", OF ne wide_discovery wide_discover wide_plan] wide_tasks
    by (simp add: as_completed_def plan_order_def worker_finish_def node_products_def
        write_text_def wide_names aggregate_def wide_sorted get_productId_def Let_def)
qed

lemma wide_run_other:
  "crawl_all_products ''2026-01-01T00-00-00Z'' ''scrapes/scrape_2026-01-01T00-00-00Z'' [''p0''] 50000000
     wide_net no_jitter low_range_last =
   Completed
     \<lparr>artifacts =
        [(''products_00000000_49999999.json'', JsonArray []),
         (''products_100000000_149999999.json'', JsonArray [\<lparr>productId = Some (JStr ''a''), payload = ''high''\<rparr>]),
         (''products_50000000_99999999.json'', JsonArray [\<lparr>productId = Some (JStr ''a''), payload = ''low''\<rparr>])],
      consolidated = [\<lparr>productId = Some (JStr ''a''), payload = ''high''\<rparr>],
      run_manifest =
        \<lparr>timestamp_utc = ''2026-01-01T00-00-00Z'', pages_written = 3, unique_products = 1,
         jsonl = ''scrapes/scrape_2026-01-01T00-00-00Z/products_all.jsonl''\<rparr>,
      estimated_total = 150000000,
      seen_ids = {JStr ''a''},
      total_downloaded = 2\<rparr>"
proof -
  have ne: "[''p0''] \<noteq> ([] :: string list)" by simp
  show ?thesis
    unfolding crawl_after_planning [where jit = no_jitter and window = 50000000 and net = wide_net
        and proxy_list = "[''p0'']", OF ne wide_discovery wide_discover wide_plan] wide_tasks
    by (simp add: as_completed_def low_range_last_def worker_finish_def node_products_def
        write_text_def wide_names aggregate_def wide_sorted_other get_productId_def Let_def)
qed

lemma near_sorted: "sort_key fst near_pages = [(0, 47), (48, 95), (96, 99)]"
  by (simp add: near_pages_def)

lemma near_dedup:
  "snd (dedup_records (concat (map near_records [(0, 47), (48, 95), (96, 99)])) ({}, [])) =
     [\<lparr>productId = Some (JStr ''a''), payload = ''low''\<rparr>]"
  by (simp add: near_records_def get_productId_def Let_def)

theorem consolidated_deterministic_witness:
  "aggregate
     [(''products_00000000_49999999.json'', JsonArray []),
      (''products_50000000_99999999.json'', JsonArray [\<lparr>productId = Some (JStr ''a''), payload = ''low''\<rparr>]),
      (''products_100000000_149999999.json'', JsonArray [\<lparr>productId = Some (JStr ''a''), payload = ''high''\<rparr>])] =
   aggregate
     [(''products_00000000_49999999.json'', JsonArray []),
      (''products_100000000_149999999.json'', JsonArray [\<lparr>productId = Some (JStr ''a''), payload = ''high''\<rparr>]),
      (''products_50000000_99999999.json'', JsonArray [\<lparr>productId = Some (JStr ''a''), payload = ''low''\<rparr>])] \<and>
   sorted_glob (map (\<lambda>r. (page_name (fst r) (snd r), JsonArray (near_records r))) near_pages) =
     map (\<lambda>r. (page_name (fst r) (snd r), JsonArray (near_records r))) [(0, 47), (48, 95), (96, 99)] \<and>
   snd (aggregate (map (\<lambda>r. (page_name (fst r) (snd r), JsonArray (near_records r))) near_pages)) =
     [\<lparr>productId = Some (JStr ''a''), payload = ''low''\<rparr>] \<and>
   consolidated
     \<lparr>artifacts =
        [(''products_00000000_49999999.json'', JsonArray []),
         (''products_50000000_99999999.json'', JsonArray [\<lparr>productId = Some (JStr ''a''), payload = ''low''\<rparr>]),
         (''products_100000000_149999999.json'', JsonArray [\<lparr>productId = Some (JStr ''a''), payload = ''high''\<rparr>])],
      consolidated = [\<lparr>productId = Some (JStr ''a''), payload = ''high''\<rparr>],
      run_manifest =
        \<lparr>timestamp_utc = ''2026-01-01T00-00-00Z'', pages_written = 3, unique_products = 1,
         jsonl = ''scrapes/scrape_2026-01-01T00-00-00Z/products_all.jsonl''\<rparr>,
      estimated_total = 150000000,
      seen_ids = {JStr ''a''},
      total_downloaded = 2\<rparr> =
   consolidated
     \<lparr>artifacts =
        [(''products_00000000_49999999.json'', JsonArray []),
         (''products_100000000_149999999.json'', JsonArray [\<lparr>productId = Some (JStr ''a''), payload = ''high''\<rparr>]),
         (''products_50000000_99999999.json'', JsonArray [\<lparr>productId = Some (JStr ''a''), payload = ''low''\<rparr>])],
      consolidated = [\<lparr>productId = Some (JStr ''a''), payload = ''high''\<rparr>],
      run_manifest =
        \<lparr>timestamp_utc = ''2026-01-01T00-00-00Z'', pages_written = 3, unique_products = 1,
         jsonl = ''scrapes/scrape_2026-01-01T00-00-00Z/products_all.jsonl''\<rparr>,
      estimated_total = 150000000,
      seen_ids = {JStr ''a''},
      total_downloaded = 2\<rparr>"
proof -
  let ?d1 = "[(''products_00000000_49999999.json'', JsonArray []),
      (''products_50000000_99999999.json'', JsonArray [\<lparr>productId = Some (JStr ''a''), payload = ''low''\<rparr>]),
      (''products_100000000_149999999.json'', JsonArray [\<lparr>productId = Some (JStr ''a''), payload = ''high''\<rparr>])]"
  let ?d2 = "[(''products_00000000_49999999.json'', JsonArray []),
      (''products_100000000_149999999.json'', JsonArray [\<lparr>productId = Some (JStr ''a''), payload = ''high''\<rparr>]),
      (''products_50000000_99999999.json'', JsonArray [\<lparr>productId = Some (JStr ''a''), payload = ''low''\<rparr>])]"
  have h1: "distinct (map fst ?d1) \<and> distinct (map fst ?d2) \<and> set ?d1 = set ?d2"
    by (simp add: insert_commute)
  have h2: "distinct (map fst near_pages) \<and> (\<forall>r\<in>set near_pages. 0 \<le> fst r \<and> fst r < 100000000)"
    by (simp add: near_pages_def)
  have h3: "set ?d1 = set ?d2" by (simp add: insert_commute)
  note T = consolidated_deterministic [where ?d1.0 = ?d1 and ?d2.0 = ?d2 and rs = near_pages
      and arr = near_records
      and ?ts1.0 = "''2026-01-01T00-00-00Z''" and ?out1.0 = "''scrapes/scrape_2026-01-01T00-00-00Z''"
      and ?proxy_list1.0 = "[''p0'']" and ?window1.0 = 50000000 and ?net1.0 = wide_net and ?jit1.0 = no_jitter
      and ?rank1.0 = plan_order
      and ?ts2.0 = "''2026-01-01T00-00-00Z''" and ?out2.0 = "''scrapes/scrape_2026-01-01T00-00-00Z''"
      and ?proxy_list2.0 = "[''p0'']" and ?window2.0 = 50000000 and ?net2.0 = wide_net and ?jit2.0 = no_jitter
      and ?rank2.0 = low_range_last]
  note b = T [THEN conjunct2, THEN conjunct1, THEN mp, OF conjI [OF wide_run conjI [OF wide_run_other]]]
  have a: "aggregate ?d1 = aggregate ?d2"
    by (rule T [THEN conjunct1, THEN mp, OF h1])
  note c = T [THEN conjunct2, THEN conjunct2, THEN mp, OF h2, unfolded near_sorted near_dedup]
  show ?thesis
  proof (intro conjI)
    show "aggregate ?d1 = aggregate ?d2" by (rule a)
    show "sorted_glob (map (\<lambda>r. (page_name (fst r) (snd r), JsonArray (near_records r))) near_pages) =
          map (\<lambda>r. (page_name (fst r) (snd r), JsonArray (near_records r))) [(0, 47), (48, 95), (96, 99)]"
      by (rule c [THEN conjunct1])
    show "snd (aggregate (map (\<lambda>r. (page_name (fst r) (snd r), JsonArray (near_records r))) near_pages)) =
          [\<lparr>productId = Some (JStr ''a''), payload = ''low''\<rparr>]"
      by (rule c [THEN conjunct2, THEN conjunct1])
    show "consolidated
     \<lparr>artifacts =
        [(''products_00000000_49999999.json'', JsonArray []),
         (''products_50000000_99999999.json'', JsonArray [\<lparr>productId = Some (JStr ''a''), payload = ''low''\<rparr>]),
         (''products_100000000_149999999.json'', JsonArray [\<lparr>productId = Some (JStr ''a''), payload = ''high''\<rparr>])],
      consolidated = [\<lparr>productId = Some (JStr ''a''), payload = ''high''\<rparr>],
      run_manifest =
        \<lparr>timestamp_utc = ''2026-01-01T00-00-00Z'', pages_written = 3, unique_products = 1,
         jsonl = ''scrapes/scrape_2026-01-01T00-00-00Z/products_all.jsonl''\<rparr>,
      estimated_total = 150000000,
      seen_ids = {JStr ''a''},
      total_downloaded = 2\<rparr> =
   consolidated
     \<lparr>artifacts =
        [(''products_00000000_49999999.json'', JsonArray []),
         (''products_100000000_149999999.json'', JsonArray [\<lparr>productId = Some (JStr ''a''), payload = ''high''\<rparr>]),
         (''products_50000000_99999999.json'', JsonArray [\<lparr>productId = Some (JStr ''a''), payload = ''low''\<rparr>])],
      consolidated = [\<lparr>productId = Some (JStr ''a''), payload = ''high''\<rparr>],
      run_manifest =
        \<lparr>timestamp_utc = ''2026-01-01T00-00-00Z'', pages_written = 3, unique_products = 1,
         jsonl = ''scrapes/scrape_2026-01-01T00-00-00Z/products_all.jsonl''\<rparr>,
      estimated_total = 150000000,
      seen_ids = {JStr ''a''},
      total_downloaded = 2\<rparr>"
      by (rule b) (simp add: insert_commute)
  qed
qed

text \<open>
  C10 as stated fails: with a window of 50 000 000 and a total of 150 000 000 the ranges
  start at 0, 50 000 000 and 100 000 000; the name of the third file has nine digits and
  sorts before the name of the second, so that the record kept for the identifier that both
  hold is the one of the range that starts at 100 000 000.
\<close>

theorem sorted_names_counterexample:
  "crawl_all_products ''2026-01-01T00-00-00Z'' ''scrapes/scrape_2026-01-01T00-00-00Z'' [''p0''] 50000000
     wide_net no_jitter plan_order =
   Completed
     \<lparr>artifacts =
        [(''products_00000000_49999999.json'', JsonArray []),
         (''products_50000000_99999999.json'', JsonArray [\<lparr>productId = Some (JStr ''a''), payload = ''low''\<rparr>]),
         (''products_100000000_149999999.json'', JsonArray [\<lparr>productId = Some (JStr ''a''), payload = ''high''\<rparr>])],
      consolidated = [\<lparr>productId = Some (JStr ''a''), payload = ''high''\<rparr>],
      run_manifest =
        \<lparr>timestamp_utc = ''2026-01-01T00-00-00Z'', pages_written = 3, unique_products = 1,
         jsonl = ''scrapes/scrape_2026-01-01T00-00-00Z/products_all.jsonl''\<rparr>,
      estimated_total = 150000000,
      seen_ids = {JStr ''a''},
      total_downloaded = 2\<rparr> \<and>
   sorted_glob
     [(''products_00000000_49999999.json'', JsonArray []),
      (''products_50000000_99999999.json'', JsonArray [\<lparr>productId = Some (JStr ''a''), payload = ''low''\<rparr>]),
      (''products_100000000_149999999.json'', JsonArray [\<lparr>productId = Some (JStr ''a''), payload = ''high''\<rparr>])] =
     [(''products_00000000_49999999.json'', JsonArray []),
      (''products_100000000_149999999.json'', JsonArray [\<lparr>productId = Some (JStr ''a''), payload = ''high''\<rparr>]),
      (''products_50000000_99999999.json'', JsonArray [\<lparr>productId = Some (JStr ''a''), payload = ''low''\<rparr>])]"
  using wide_run wide_sorted by (rule conjI)

end
